theory Spec2Isabelle
  imports Main "HOL-Library.Sublist"
begin

section \<open>JSON Lines COPY format (jsonlines.c): data model\<close>

text \<open>
  The model is the build with zlib (\<open>HAVE_LIBZ\<close>): the state structures have their
  \<open>z_stream\<close> and raw-buffer fields only there.

  A C \<open>char\<close> is a \<^typ>\<open>char\<close>, a byte buffer is a \<^typ>\<open>string\<close>. The two bytes the
  line reader looks at are the newline and the terminating NUL of a C string. A
  \<open>StringInfo\<close> is the list of its bytes; its limit of 1 GB is not modelled.
\<close>

definition NL :: char where
  "NL = CHR 0x0A"

definition NUL :: char where
  "NUL = CHR 0x00"

text \<open>
  \<open>ereport(ERROR, ...)\<close> and \<open>elog(ERROR, ...)\<close> abort the whole COPY command: they
  are the value \<open>ERROR\<close> with the message's format string. Undefined behaviour of the C
  program (a NULL pointer handed to \<open>strcmp\<close>, a read beyond the initialised part of a
  buffer, a failed \<open>Assert\<close>) is the value \<open>UNDEFINED_BEHAVIOUR\<close>.
\<close>

datatype error = ERROR string | UNDEFINED_BEHAVIOUR string

datatype pg_compress_algorithm =
  PG_COMPRESSION_NONE | PG_COMPRESSION_GZIP | PG_COMPRESSION_LZ4 | PG_COMPRESSION_ZSTD

definition RAW_BUF_SIZE :: nat where
  "RAW_BUF_SIZE = 65536"

definition INPUT_BUF_SIZE :: nat where
  "INPUT_BUF_SIZE = 65536"

definition GZIP_CHUNK_SIZE :: nat where
  "GZIP_CHUNK_SIZE = 256 * 1024"

text \<open>
  zlib's \<open>z_stream\<close>: the two counters the code reads back after a call, and the
  library's internal state, which is opaque here.
\<close>

record 'z z_stream =
  avail_in :: nat
  avail_out :: nat
  internal :: 'z

text \<open>
  jsonb values as \<open>getKeyJsonValueFromContainer\<close> hands them out (\<open>enum jbvType\<close>):
  scalars, and \<open>jbvBinary\<close> for a nested array or object. A container is an object
  (its pairs, keys unique) or an array.
\<close>

datatype 'n JsonbValue =
    jbvNull
  | jbvString string
  | jbvNumeric 'n
  | jbvBool bool
  | jbvArray
  | jbvObject
  | jbvBinary "'n JsonbContainer"
  | jbvDatetime
and 'n JsonbContainer =
    JsonbObject "(string \<times> 'n JsonbValue) list"
  | JsonbArray "'n JsonbValue list"

text \<open>
  The read path's state, \<open>struct CopyFromStateJsonLines\<close>. From \<open>base\<close> it has the
  file name, the attribute names of the tuple descriptor, the list of target attribute
  numbers, the per-column input functions and \<open>bytes_processed\<close>. \<open>source\<close> is the
  data source behind \<open>CopyFromGetData\<close>: the bytes not yet delivered, in the pieces in
  which they will arrive.

  A buffer obtained from \<open>palloc\<close> is modelled by the part of it that has been written:
  for \<open>input_buf\<close> the bytes of the last refill followed by the NUL the code stores after
  them, for \<open>raw_buf\<close> the bytes of the last refill.
\<close>

record ('z, 'd) CopyFromStateJsonLines =
  filename :: string
  tupdesc :: "string list"
  attnumlist :: "int list"
  in_functions :: "(string \<Rightarrow> 'd option) list"
  bytes_processed :: nat
  source :: "string list"
  compression :: pg_compress_algorithm
  strm :: "'z z_stream"
  raw_buf :: string
  raw_buf_index :: int
  raw_buf_len :: int
  line_buf :: string
  input_buf :: string
  input_buf_index :: int
  input_buf_len :: int
  input_reached_eof :: bool
  input_reached_error :: bool

text \<open>
  The functions of zlib and of the PostgreSQL server that the read path calls. They are
  parameters of the model.
  \<^item> \<open>inflateInit2\<close>: the internal state of a fresh inflate stream, or \<open>None\<close> when the
    library does not return \<open>Z_OK\<close>;
  \<^item> \<open>inflate\<close>: from the internal state, the bytes at \<open>next_in\<close> and \<open>avail_out\<close>,
    the return code, the number of input bytes used, the bytes written at \<open>next_out\<close> and
    the new internal state;
  \<^item> \<open>jsonb_in\<close>: the parsed root container of a text, or \<open>None\<close> when it is not valid JSON;
  \<^item> \<open>numeric_out\<close> and \<open>JsonbToCString\<close>: the text of a number and of a container.
\<close>

record ('z, 'n) host =
  inflateInit2 :: "'z option"
  inflate :: "'z \<Rightarrow> string \<Rightarrow> nat \<Rightarrow> int \<times> nat \<times> string \<times> 'z"
  jsonb_in :: "string \<Rightarrow> 'n JsonbContainer option"
  numeric_out :: "'n \<Rightarrow> string"
  JsonbToCString :: "'n JsonbContainer \<Rightarrow> string"

definition RAW_BUF_BYTES :: "('z, 'd) CopyFromStateJsonLines \<Rightarrow> int" where
  "RAW_BUF_BYTES cstate = raw_buf_len cstate - raw_buf_index cstate"

definition INPUT_BUF_BYTES :: "('z, 'd) CopyFromStateJsonLines \<Rightarrow> int" where
  "INPUT_BUF_BYTES cstate = input_buf_len cstate - input_buf_index cstate"

section \<open>C strings\<close>

text \<open>
  \<open>strrchr(s, c)\<close> on the characters of \<open>s\<close> before its terminator: the suffix that
  starts at the last \<open>c\<close>, or \<open>None\<close> for the NULL pointer.
\<close>

fun strrchr :: "string \<Rightarrow> char \<Rightarrow> string option" where
  "strrchr [] c = None"
| "strrchr (x # xs) c =
     (case strrchr xs c of
        Some s \<Rightarrow> Some s
      | None \<Rightarrow> if x = c then Some (x # xs) else None)"

text \<open>
  \<open>strchr(p, c)\<close> for \<open>c \<noteq> NUL\<close> on the memory that starts at \<open>p\<close>: the offset of
  the first \<open>c\<close> when it comes before any NUL, the NULL pointer when a NUL comes first,
  and a read beyond the written part of the buffer when neither is there.
\<close>

datatype scan = Found nat | Null | Out_of_bounds

fun strchr :: "string \<Rightarrow> char \<Rightarrow> scan" where
  "strchr [] c = Out_of_bounds"
| "strchr (x # xs) c =
     (if x = c then Found 0
      else if x = NUL then Null
      else (case strchr xs c of Found k \<Rightarrow> Found (Suc k) | r \<Rightarrow> r))"

text \<open>A text handed over as a C string ends at its first NUL.\<close>

definition cstring :: "string \<Rightarrow> string" where
  "cstring s = takeWhile (\<lambda>x. x \<noteq> NUL) s"

section \<open>The data source\<close>

text \<open>
  \<open>CopyFromGetData(cstate, buf, 1, maxread)\<close> belongs to the server. With
  \<open>minread = 1\<close> it delivers between 1 and \<open>maxread\<close> bytes, and 0 bytes only at the end
  of the input: the next piece of the source, cut at \<open>maxread\<close>.
\<close>

fun CopyFromGetData :: "string list \<Rightarrow> nat \<Rightarrow> string \<times> string list" where
  "CopyFromGetData [] maxread = ([], [])"
| "CopyFromGetData (c # cs) maxread =
     (if c = [] then CopyFromGetData cs maxread
      else (take maxread c, if length c \<le> maxread then cs else drop maxread c # cs))"

section \<open>Read path\<close>

text \<open>
  \<open>initialize_inflate_gzip\<close> (built with zlib): clear the stream, then \<open>inflateInit2\<close>.
\<close>

definition initialize_inflate_gzip :: "('z, 'n) host \<Rightarrow> error + 'z z_stream" where
  "initialize_inflate_gzip h =
     (case inflateInit2 h of
        None \<Rightarrow> Inl (ERROR ''could not initialize compression library'')
      | Some z \<Rightarrow> Inr \<lparr>avail_in = 0, avail_out = 0, internal = z\<rparr>)"

text \<open>
  \<open>JsonLinesCopyFromStart\<close>. \<open>strcmp\<close> on the NULL pointer that \<open>strrchr\<close> returns for
  a name without a dot is undefined behaviour.
\<close>

definition JsonLinesCopyFromStart ::
  "('z, 'n) host \<Rightarrow> ('z, 'd) CopyFromStateJsonLines \<Rightarrow>
   error + ('z, 'd) CopyFromStateJsonLines" where
  "JsonLinesCopyFromStart h cstate =
     (case strrchr (filename cstate) (CHR ''.'') of
        None \<Rightarrow> Inl (UNDEFINED_BEHAVIOUR ''strcmp(NULL, .gz)'')
      | Some extension \<Rightarrow>
          (case (if extension = ''.gz''
                 then (case initialize_inflate_gzip h of
                         Inl e \<Rightarrow> Inl e
                       | Inr s \<Rightarrow>
                           Inr (cstate\<lparr>compression := PG_COMPRESSION_GZIP, strm := s,
                                  raw_buf := [], raw_buf_index := 0, raw_buf_len := 0\<rparr>))
                 else Inr (cstate\<lparr>compression := PG_COMPRESSION_NONE\<rparr>)) of
             Inl e \<Rightarrow> Inl e
           | Inr cs \<Rightarrow>
               Inr (cs\<lparr>input_buf := [], input_buf_index := 0, input_buf_len := 0,
                      input_reached_eof := False, input_reached_error := False,
                      line_buf := []\<rparr>)))"

text \<open>
  zlib's contract for one call of \<open>inflate\<close>: it reads at most \<open>avail_in\<close> bytes and writes
  at most \<open>avail_out\<close> bytes, and leaves in \<open>avail_in\<close> and \<open>avail_out\<close> what it did not
  use. The result is the return code, the bytes written and the stream.
\<close>

definition call_inflate ::
  "('z, 'n) host \<Rightarrow> 'z z_stream \<Rightarrow> string \<Rightarrow> int \<times> string \<times> 'z z_stream" where
  "call_inflate h s next_in =
     (case inflate h (internal s) (take (avail_in s) next_in) (avail_out s) of
        (ret, used, out, z) \<Rightarrow>
          (ret, take (avail_out s) out,
           \<lparr>avail_in = avail_in s - min used (avail_in s),
            avail_out = avail_out s - length (take (avail_out s) out),
            internal = z\<rparr>))"

text \<open>The conversion of an \<open>int\<close> to \<open>Size\<close> (64 bits, unsigned).\<close>

definition Size_of_int :: "int \<Rightarrow> nat" where
  "Size_of_int i = nat (i mod 2 ^ 64)"

text \<open>
  The first block of \<open>read_gzip\<close>: read compressed data to refill \<open>raw_buf\<close> if it
  is empty.
\<close>

definition read_gzip_refill ::
  "('z, 'd) CopyFromStateJsonLines \<Rightarrow> ('z, 'd) CopyFromStateJsonLines" where
  "read_gzip_refill cstate =
     (if RAW_BUF_BYTES cstate = 0
      then (case CopyFromGetData (source cstate) RAW_BUF_SIZE of
              (data, src) \<Rightarrow>
                cstate\<lparr>source := src, raw_buf := data,
                       raw_buf_len := int (length data), raw_buf_index := 0,
                       bytes_processed := bytes_processed cstate + length data\<rparr>)
      else cstate)"

definition read_gzip ::
  "('z, 'n) host \<Rightarrow> ('z, 'd) CopyFromStateJsonLines \<Rightarrow>
   error + ('z, 'd) CopyFromStateJsonLines" where
  "read_gzip h cstate0 =
     (let cstate = read_gzip_refill cstate0;
          inbytes = Size_of_int (RAW_BUF_BYTES cstate);
          s = (strm cstate)\<lparr>avail_in := inbytes, avail_out := INPUT_BUF_SIZE\<rparr>
      in case call_inflate h s (drop (nat (raw_buf_index cstate)) (raw_buf cstate)) of
           (ret, out, s') \<Rightarrow>
             if ret < 0 then Inl (ERROR ''could not decompress data: %s'')
             else
               let written = INPUT_BUF_SIZE - avail_out s'
               in Inr (cstate\<lparr>strm := s',
                        raw_buf_index := raw_buf_index cstate + int (inbytes - avail_in s'),
                        input_buf := take written out @ [NUL],
                        input_buf_len := int written,
                        input_buf_index := 0\<rparr>))"

text \<open>
  The block of \<open>JsonLineReadLine\<close> that loads more data, entered when
  \<open>INPUT_BUF_BYTES(cstate) <= 0\<close>.
\<close>

definition load_more ::
  "('z, 'n) host \<Rightarrow> ('z, 'd) CopyFromStateJsonLines \<Rightarrow>
   error + ('z, 'd) CopyFromStateJsonLines" where
  "load_more h cstate =
     (if compression cstate = PG_COMPRESSION_NONE
      then (case CopyFromGetData (source cstate) INPUT_BUF_SIZE of
              (data, src) \<Rightarrow>
                Inr (cstate\<lparr>source := src, input_buf := data @ [NUL],
                       input_buf_len := int (length data), input_buf_index := 0,
                       bytes_processed := bytes_processed cstate + length data\<rparr>))
      else if compression cstate = PG_COMPRESSION_GZIP then read_gzip h cstate
      else Inr cstate)"

text \<open>The unread bytes of the Input Buffer, \<open>input_buf[input_buf_index .. input_buf_len)\<close>.\<close>

definition unread :: "('z, 'd) CopyFromStateJsonLines \<Rightarrow> string" where
  "unread cstate =
     take (nat (input_buf_len cstate - input_buf_index cstate))
       (drop (nat (input_buf_index cstate)) (input_buf cstate))"

text \<open>
  The rest of the loop body of \<open>JsonLineReadLine\<close>: \<open>strchr\<close> from the first
  unread byte, then either the whole unread part goes to \<open>line_buf\<close> and the loop
  continues, or the bytes before the newline go there, the newline is consumed and the
  loop ends with the result \<open>false\<close>.
\<close>

datatype flow = Break bool | Continue

definition scan_for_newline ::
  "('z, 'd) CopyFromStateJsonLines \<Rightarrow> error + ('z, 'd) CopyFromStateJsonLines \<times> flow" where
  "scan_for_newline cstate =
     (case strchr (drop (nat (input_buf_index cstate)) (input_buf cstate)) NL of
        Out_of_bounds \<Rightarrow> Inl (UNDEFINED_BEHAVIOUR ''strchr beyond input_buf'')
      | Null \<Rightarrow>
          Inr (cstate\<lparr>line_buf := line_buf cstate @ unread cstate,
                 input_buf_index := input_buf_len cstate\<rparr>, Continue)
      | Found nbytes \<Rightarrow>
          Inr (cstate\<lparr>line_buf :=
                        line_buf cstate @
                        take nbytes (drop (nat (input_buf_index cstate)) (input_buf cstate)),
                      input_buf_index := input_buf_index cstate + int nbytes + 1\<rparr>,
               Break False))"

text \<open>One pass through the body of the \<open>for (;;)\<close> of \<open>JsonLineReadLine\<close>.\<close>

definition JsonLineReadLine_body ::
  "('z, 'n) host \<Rightarrow> ('z, 'd) CopyFromStateJsonLines \<Rightarrow>
   error + ('z, 'd) CopyFromStateJsonLines \<times> flow" where
  "JsonLineReadLine_body h cstate0 =
     (if INPUT_BUF_BYTES cstate0 \<le> 0
      then (case load_more h cstate0 of
              Inl e \<Rightarrow> Inl e
            | Inr cstate \<Rightarrow>
                if INPUT_BUF_BYTES cstate \<le> 0 then Inr (cstate, Break True)
                else scan_for_newline cstate)
      else scan_for_newline cstate0)"

text \<open>
  The loop. The result \<open>True\<close> is the end of the input, \<open>False\<close> a complete line in
  \<open>line_buf\<close>. Under gzip nothing in this file bounds the number of refills, so the loop
  is a partial function: \<open>None\<close> is a loop that does not end.
\<close>

partial_function (option) JsonLineReadLine_loop ::
  "('z, 'n) host \<Rightarrow> ('z, 'd) CopyFromStateJsonLines \<Rightarrow>
   (error + ('z, 'd) CopyFromStateJsonLines \<times> bool) option" where
  "JsonLineReadLine_loop h cstate =
     (case JsonLineReadLine_body h cstate of
        Inl e \<Rightarrow> Some (Inl e)
      | Inr (cstate', Continue) \<Rightarrow> JsonLineReadLine_loop h cstate'
      | Inr (cstate', Break result) \<Rightarrow> Some (Inr (cstate', result)))"

definition JsonLineReadLine ::
  "('z, 'n) host \<Rightarrow> ('z, 'd) CopyFromStateJsonLines \<Rightarrow>
   (error + ('z, 'd) CopyFromStateJsonLines \<times> bool) option" where
  "JsonLineReadLine h cstate = JsonLineReadLine_loop h (cstate\<lparr>line_buf := []\<rparr>)"

text \<open>
  \<open>GetJsonbValueAsCString\<close>: the text of a jsonb value, appended to \<open>str\<close>.
  \<open>appendStringInfoString\<close> appends a C string.
\<close>

definition GetJsonbValueAsCString ::
  "('z, 'n) host \<Rightarrow> 'n JsonbValue \<Rightarrow> string \<Rightarrow> error + string" where
  "GetJsonbValueAsCString h v str =
     (case v of
        jbvNull \<Rightarrow> Inr str
      | jbvBool b \<Rightarrow> Inr (str @ (if b then ''true'' else ''false''))
      | jbvString s \<Rightarrow> Inr (str @ s)
      | jbvNumeric n \<Rightarrow> Inr (str @ cstring (numeric_out h n))
      | jbvBinary c \<Rightarrow> Inr (str @ JsonbToCString h c)
      | _ \<Rightarrow> Inl (ERROR ''unrecognized jsonb type: %d''))"

text \<open>
  \<open>getKeyJsonValueFromContainer\<close> belongs to the server: the value stored under a key
  of an object, \<open>None\<close> for the NULL pointer when the key is absent. It asserts that the
  container is an object.
\<close>

definition getKeyJsonValueFromContainer ::
  "'n JsonbContainer \<Rightarrow> string \<Rightarrow> error + 'n JsonbValue option" where
  "getKeyJsonValueFromContainer container keyVal =
     (case container of
        JsonbObject pairs \<Rightarrow> Inr (map_of pairs keyVal)
      | JsonbArray _ \<Rightarrow> Inl (UNDEFINED_BEHAVIOUR ''Assert(JsonContainerIsObject(container))''))"

text \<open>
  The \<open>foreach\<close> over \<open>attnumlist\<close> in \<open>JsonLinesCopyFromOneRow\<close>. \<open>values\<close> and
  \<open>nulls\<close> are the caller's arrays, \<open>buf\<close> the scratch text. An attribute number
  outside the tuple descriptor or the arrays is an access out of bounds.
  \<open>InputFunctionCallSafe\<close> with the column's input function gives the value, or \<open>None\<close>
  when the text is not accepted.
\<close>

fun JsonLinesCopyFromOneRow_foreach ::
  "('z, 'n) host \<Rightarrow> ('z, 'd) CopyFromStateJsonLines \<Rightarrow> 'n JsonbContainer \<Rightarrow> int list \<Rightarrow>
   'd list \<Rightarrow> bool list \<Rightarrow> string \<Rightarrow> error + 'd list \<times> bool list" where
  "JsonLinesCopyFromOneRow_foreach h cstate jb [] values nulls buf = Inr (values, nulls)"
| "JsonLinesCopyFromOneRow_foreach h cstate jb (attnum # lc) values nulls buf =
     (if attnum < 1 \<or> int (length (tupdesc cstate)) < attnum
         \<or> int (length (in_functions cstate)) < attnum
         \<or> int (length values) < attnum \<or> int (length nulls) < attnum
      then Inl (UNDEFINED_BEHAVIOUR ''attnum out of bounds'')
      else
        let i = nat (attnum - 1);
            attname = cstring (tupdesc cstate ! i)
        in case getKeyJsonValueFromContainer jb attname of
             Inl e \<Rightarrow> Inl e
           | Inr None \<Rightarrow>
               JsonLinesCopyFromOneRow_foreach h cstate jb lc values (nulls[i := True]) buf
           | Inr (Some v) \<Rightarrow>
               if v = jbvNull
               then JsonLinesCopyFromOneRow_foreach h cstate jb lc values (nulls[i := True]) buf
               else
                 (case GetJsonbValueAsCString h v buf of
                    Inl e \<Rightarrow> Inl e
                  | Inr buf' \<Rightarrow>
                      (case (in_functions cstate ! i) (cstring buf') of
                         None \<Rightarrow>
                           Inl (ERROR ''could not convert jsonb value \"%s\" to data for column \"%s\"'')
                       | Some d \<Rightarrow>
                           JsonLinesCopyFromOneRow_foreach h cstate jb lc
                             (values[i := d]) (nulls[i := False]) [])))"

text \<open>
  \<open>JsonLinesCopyFromOneRow\<close>. The result \<open>None\<close> beside the state is the return value
  \<open>false\<close> (no row); a row is the two arrays and \<open>rowinfo->tuplen\<close>.
\<close>

definition JsonLinesCopyFromOneRow ::
  "('z, 'n) host \<Rightarrow> ('z, 'd) CopyFromStateJsonLines \<Rightarrow> 'd list \<Rightarrow> bool list \<Rightarrow>
   (error + ('z, 'd) CopyFromStateJsonLines \<times> ('d list \<times> bool list \<times> nat) option) option" where
  "JsonLinesCopyFromOneRow h cstate0 values nulls =
     (case JsonLineReadLine h cstate0 of
        None \<Rightarrow> None
      | Some (Inl e) \<Rightarrow> Some (Inl e)
      | Some (Inr (cstate, True)) \<Rightarrow> Some (Inr (cstate, None))
      | Some (Inr (cstate, False)) \<Rightarrow>
          (case jsonb_in h (cstring (line_buf cstate)) of
             None \<Rightarrow> Some (Inl (ERROR ''invalid data for jsonb value''))
           | Some jb \<Rightarrow>
               (case JsonLinesCopyFromOneRow_foreach h cstate jb (attnumlist cstate)
                       values nulls [] of
                  Inl e \<Rightarrow> Some (Inl e)
                | Inr (values', nulls') \<Rightarrow>
                    Some (Inr (cstate, Some (values', nulls', length (line_buf cstate)))))))"

text \<open>
  \<open>end_inflate_gzip\<close> calls \<open>inflateEnd\<close>, which releases the library's state and
  changes nothing the read path looks at. \<open>JsonLinesCopyFromEnd\<close> calls it under gzip.
\<close>

definition end_inflate_gzip ::
  "('z, 'd) CopyFromStateJsonLines \<Rightarrow> ('z, 'd) CopyFromStateJsonLines" where
  "end_inflate_gzip cstate = cstate"

definition JsonLinesCopyFromEnd ::
  "('z, 'd) CopyFromStateJsonLines \<Rightarrow> ('z, 'd) CopyFromStateJsonLines" where
  "JsonLinesCopyFromEnd cstate =
     (if compression cstate = PG_COMPRESSION_GZIP then end_inflate_gzip cstate else cstate)"

section \<open>Write path\<close>

text \<open>The flush argument of \<open>deflate\<close>.\<close>

datatype flush = Z_NO_FLUSH | Z_FINISH

definition Z_STREAM_ERROR :: int where
  "Z_STREAM_ERROR = - 2"

text \<open>
  The write path's state, \<open>struct CopyToStateJsonLines\<close>. From \<open>base\<close> it has
  \<open>fe_msgbuf\<close>; \<open>copy_dest\<close> is what \<open>CopyToFlushData\<close> has sent to the destination
  so far.
\<close>

record 'z CopyToStateJsonLines =
  fe_msgbuf :: string
  copy_dest :: string
  options_compression :: pg_compress_algorithm
  options_compression_detail_str :: "string option"
  options_level :: int
  to_strm :: "'z z_stream"
  inbuf :: string

text \<open>
  What the write path calls in zlib and in the server:
  \<^item> \<open>compress_specification\<close>: \<open>parse_compress_specification\<close> followed by
    \<open>validate_compress_specification\<close>, the error detail or the compression level;
  \<^item> \<open>deflateInit2\<close>: the internal state of a fresh deflate stream for a level, or
    \<open>None\<close> when the library does not return \<open>Z_OK\<close>;
  \<^item> \<open>deflate\<close>: from the internal state, the bytes at \<open>next_in\<close>, the flush argument
    and \<open>avail_out\<close>, the return code, the number of input bytes used, the bytes
    written at \<open>next_out\<close> and the new internal state;
  \<^item> \<open>deflateEnd\<close>: the internal state after the library has released it;
  \<^item> \<open>row_to_json\<close>: the JSON text of a row.
\<close>

record ('z, 'row) to_host =
  compress_specification :: "pg_compress_algorithm \<Rightarrow> string option \<Rightarrow> string + int"
  deflateInit2 :: "int \<Rightarrow> 'z option"
  deflate :: "'z \<Rightarrow> string \<Rightarrow> flush \<Rightarrow> nat \<Rightarrow> int \<times> nat \<times> string \<times> 'z"
  deflateEnd :: "'z \<Rightarrow> 'z"
  row_to_json :: "'row \<Rightarrow> string"

text \<open>
  \<open>CopyToFlushData\<close> belongs to the server: it sends \<open>fe_msgbuf\<close> to the destination
  and empties it.
\<close>

definition CopyToFlushData :: "'z CopyToStateJsonLines \<Rightarrow> 'z CopyToStateJsonLines" where
  "CopyToFlushData cstate =
     cstate\<lparr>copy_dest := copy_dest cstate @ fe_msgbuf cstate, fe_msgbuf := []\<rparr>"

text \<open>zlib's contract for one call of \<open>deflate\<close>, as for \<open>inflate\<close>.\<close>

definition call_deflate ::
  "('z, 'row) to_host \<Rightarrow> 'z z_stream \<Rightarrow> string \<Rightarrow> flush \<Rightarrow> int \<times> string \<times> 'z z_stream" where
  "call_deflate h s next_in flush_flag =
     (case deflate h (internal s) (take (avail_in s) next_in) flush_flag (avail_out s) of
        (ret, used, out, z) \<Rightarrow>
          (ret, take (avail_out s) out,
           \<lparr>avail_in = avail_in s - min used (avail_in s),
            avail_out = avail_out s - length (take (avail_out s) out),
            internal = z\<rparr>))"


text \<open>
  One pass through the body of the \<open>do ... while\<close> of \<open>write_gzip\<close>: the state, the
  input that is left at \<open>next_in\<close>, and whether the loop goes on
  (\<open>avail_out == 0\<close>).
\<close>

definition write_gzip_body ::
  "('z, 'row) to_host \<Rightarrow> 'z CopyToStateJsonLines \<Rightarrow> string \<Rightarrow> flush \<Rightarrow>
   error + 'z CopyToStateJsonLines \<times> string \<times> bool" where
  "write_gzip_body h cstate next_in flush_flag =
     (let s = (to_strm cstate)\<lparr>avail_out := GZIP_CHUNK_SIZE\<rparr>
      in case call_deflate h s next_in flush_flag of
           (ret, out, s') \<Rightarrow>
             if ret = Z_STREAM_ERROR then Inl (ERROR ''could not compress data: %s'')
             else
               let written = GZIP_CHUNK_SIZE - avail_out s';
                   cstate1 = cstate\<lparr>to_strm := s'\<rparr>;
                   cstate2 =
                     (if written > 0
                      then CopyToFlushData
                             (cstate1\<lparr>fe_msgbuf := fe_msgbuf cstate1 @ take written out\<rparr>)
                      else cstate1)
               in Inr (cstate2, drop (avail_in s - avail_in s') next_in, avail_out s' = 0))"

text \<open>
  The loop of \<open>write_gzip\<close>. Nothing in this file bounds the number of passes, so it is
  a partial function: \<open>None\<close> is a loop that does not end.
\<close>

partial_function (option) write_gzip_loop ::
  "('z, 'row) to_host \<Rightarrow> 'z CopyToStateJsonLines \<Rightarrow> string \<Rightarrow> flush \<Rightarrow>
   (error + 'z CopyToStateJsonLines) option" where
  "write_gzip_loop h cstate next_in flush_flag =
     (case write_gzip_body h cstate next_in flush_flag of
        Inl e \<Rightarrow> Some (Inl e)
      | Inr (cstate', next_in', again) \<Rightarrow>
          if again then write_gzip_loop h cstate' next_in' flush_flag
          else Some (Inr cstate'))"

definition write_gzip ::
  "('z, 'row) to_host \<Rightarrow> 'z CopyToStateJsonLines \<Rightarrow> string \<Rightarrow> flush \<Rightarrow>
   (error + 'z CopyToStateJsonLines) option" where
  "write_gzip h cstate rowdata flush_flag =
     write_gzip_loop h
       (cstate\<lparr>to_strm := (to_strm cstate)\<lparr>avail_in := length (cstring rowdata)\<rparr>\<rparr>)
       rowdata flush_flag"



definition JsonLinesCopyToOneRow ::
  "('z, 'row) to_host \<Rightarrow> 'z CopyToStateJsonLines \<Rightarrow> 'row \<Rightarrow>
   (error + 'z CopyToStateJsonLines) option" where
  "JsonLinesCopyToOneRow h cstate slot =
     (let str = cstring (row_to_json h slot)
      in if options_compression cstate = PG_COMPRESSION_NONE
         then Some (Inr (CopyToFlushData
                           (cstate\<lparr>fe_msgbuf := fe_msgbuf cstate @ str @ [NL]\<rparr>)))
         else if options_compression cstate = PG_COMPRESSION_GZIP
         then write_gzip h (cstate\<lparr>inbuf := str @ [NL]\<rparr>) (str @ [NL]) Z_NO_FLUSH
         else Some (Inr cstate))"


text \<open>
  The driver belongs to the server. As the specification's control flow has it, it calls
  the start operation once, then the one-row operation for each row, then the end
  operation once; an error ends the copy at once.
\<close>

fun CopyTo_rows ::
  "('z, 'row) to_host \<Rightarrow> 'z CopyToStateJsonLines \<Rightarrow> 'row list \<Rightarrow>
   (error + 'z CopyToStateJsonLines) option" where
  "CopyTo_rows h cstate [] = Some (Inr cstate)"
| "CopyTo_rows h cstate (slot # slots) =
     (case JsonLinesCopyToOneRow h cstate slot of
        Some (Inr cstate') \<Rightarrow> CopyTo_rows h cstate' slots
      | r \<Rightarrow> r)"


section \<open>A zlib that records its calls\<close>





section \<open>Invariants and the bytes still to be read\<close>

text \<open>
  The Stream Buffer invariant of a buffer with its consumed offset \<open>index\<close>, its number
  of stored bytes \<open>len\<close> and its capacity.
\<close>

definition stream_buffer_ok :: "int \<Rightarrow> int \<Rightarrow> nat \<Rightarrow> bool" where
  "stream_buffer_ok index len capacity \<longleftrightarrow> 0 \<le> index \<and> index \<le> len \<and> len \<le> int capacity"

text \<open>
  The Input Buffer is well formed: the invariant holds and, unless every byte is
  consumed, the written part is \<open>input_buf_len\<close> bytes followed by the NUL.
\<close>

definition input_buf_ok :: "('z, 'd) CopyFromStateJsonLines \<Rightarrow> bool" where
  "input_buf_ok cstate \<longleftrightarrow>
     stream_buffer_ok (input_buf_index cstate) (input_buf_len cstate) INPUT_BUF_SIZE \<and>
     (input_buf_index cstate = input_buf_len cstate \<or>
      (length (input_buf cstate) = nat (input_buf_len cstate) + 1 \<and>
       input_buf cstate ! nat (input_buf_len cstate) = NUL))"

text \<open>
  What an uncompressed read still has before it: the unread bytes of the Input Buffer,
  then the bytes of the source.
\<close>

definition remaining :: "('z, 'd) CopyFromStateJsonLines \<Rightarrow> string" where
  "remaining cstate = unread cstate @ concat (source cstate)"

text \<open>
  For the dangling tail of a stream: \<open>consume_unread\<close> is what the line reader does with
  unread bytes in which it finds no newline (they go to \<open>line_buf\<close> and the buffer is
  marked consumed). \<open>input_ends_after h cstate n\<close> says of a state with a consumed Input
  Buffer that the input ends before any newline comes: the next \<open>n\<close> refills bring bytes
  without a newline, and the refill after them brings no byte.
\<close>

definition consume_unread ::
  "('z, 'd) CopyFromStateJsonLines \<Rightarrow> ('z, 'd) CopyFromStateJsonLines" where
  "consume_unread cstate =
     cstate\<lparr>line_buf := line_buf cstate @ unread cstate,
            input_buf_index := input_buf_len cstate\<rparr>"

fun input_ends_after ::
  "('z, 'n) host \<Rightarrow> ('z, 'd) CopyFromStateJsonLines \<Rightarrow> nat \<Rightarrow> bool" where
  "input_ends_after h cstate 0 =
     (case load_more h cstate of
        Inl e \<Rightarrow> False
      | Inr cstate' \<Rightarrow> INPUT_BUF_BYTES cstate' \<le> 0)"
| "input_ends_after h cstate (Suc n) =
     (case load_more h cstate of
        Inl e \<Rightarrow> False
      | Inr cstate' \<Rightarrow>
          0 < INPUT_BUF_BYTES cstate' \<and> NL \<notin> set (unread cstate')
          \<and> input_ends_after h (consume_unread cstate') n)"

section \<open>A concrete host and a concrete table\<close>

text \<open>
  The table \<open>(a int, b text)\<close> of the specification's scenario, with stand-ins for what
  the server and zlib provide: a \<open>jsonb_in\<close> that knows the scenario's two lines, input
  functions for the two column types, and a transform that hands its input through.
\<close>

datatype datum = Int4 int | Text string | Bool bool

definition example_host :: "(unit, int) host" where
  "example_host =
     \<lparr>inflateInit2 = Some (),
      inflate = (\<lambda>z next_in n. (0, min (length next_in) n, take n next_in, z)),
      jsonb_in = (\<lambda>s.
        if s = ''{\"a\":1,\"b\":\"x\"}''
        then Some (JsonbObject [(''a'', jbvNumeric 1), (''b'', jbvString ''x'')])
        else if s = ''{\"a\":2,\"b\":null}''
        then Some (JsonbObject [(''a'', jbvNumeric 2), (''b'', jbvNull)])
        else if s = ''{\"a\":true,\"c\":0}''
        then Some (JsonbObject [(''a'', jbvBool True), (''c'', jbvNumeric 0)])
        else None),
      numeric_out = (\<lambda>n. if n = 1 then ''1'' else if n = 2 then ''2'' else ''0''),
      JsonbToCString = (\<lambda>c. ''{}'')\<rparr>"

definition example_int4in :: "string \<Rightarrow> datum option" where
  "example_int4in s =
     (if s = ''0'' then Some (Int4 0) else if s = ''1'' then Some (Int4 1)
      else if s = ''2'' then Some (Int4 2) else None)"

definition example_textin :: "string \<Rightarrow> datum option" where
  "example_textin s = Some (Text s)"

definition example_cstate :: "(unit, datum) CopyFromStateJsonLines" where
  "example_cstate =
     \<lparr>filename = ''rows.jsonl'', tupdesc = [''a'', ''b''], attnumlist = [1, 2],
      in_functions = [example_int4in, example_textin], bytes_processed = 0,
      source = [], compression = PG_COMPRESSION_NONE,
      strm = \<lparr>avail_in = 0, avail_out = 0, internal = ()\<rparr>,
      raw_buf = [], raw_buf_index = 0, raw_buf_len = 0, line_buf = [],
      input_buf = [], input_buf_index = 0, input_buf_len = 0,
      input_reached_eof = False, input_reached_error = False\<rparr>"

section \<open>What a decoded cell has to be\<close>

text \<open>
  The cell of column \<open>attnum\<close> in the arrays \<open>values\<close> and \<open>nulls\<close> agrees with the
  object \<open>pairs\<close>: null when the object has no key with the column's name or has the
  JSON value null under it, and otherwise not null, with the value the column's input
  function makes of the text of the JSON value.
\<close>

definition cell_decoded ::
  "('z, 'n) host \<Rightarrow> ('z, 'd) CopyFromStateJsonLines \<Rightarrow> (string \<times> 'n JsonbValue) list \<Rightarrow>
   int \<Rightarrow> 'd list \<Rightarrow> bool list \<Rightarrow> bool" where
  "cell_decoded h cstate pairs attnum values nulls =
     (let i = nat (attnum - 1)
      in case map_of pairs (cstring (tupdesc cstate ! i)) of
           None \<Rightarrow> nulls ! i
         | Some v \<Rightarrow>
             if v = jbvNull then nulls ! i
             else \<not> nulls ! i \<and>
               (case GetJsonbValueAsCString h v [] of
                  Inl e \<Rightarrow> False
                | Inr txt \<Rightarrow> (in_functions cstate ! i) (cstring txt) = Some (values ! i)))"

text \<open>The two lines of the specification's scenario, and a third line for the tests.\<close>

definition scenario_line1 :: string where
  "scenario_line1 = ''{\"a\":1,\"b\":\"x\"}''"



text \<open>
  The invariant of the read path's two Stream Buffers. The Raw Byte Buffer exists only
  under gzip: \<open>JsonLinesCopyFromStart\<close> sets it up in that branch alone.
\<close>

definition raw_buf_ok :: "('z, 'd) CopyFromStateJsonLines \<Rightarrow> bool" where
  "raw_buf_ok cstate \<longleftrightarrow>
     stream_buffer_ok (raw_buf_index cstate) (raw_buf_len cstate) RAW_BUF_SIZE"

definition buffers_ok :: "('z, 'd) CopyFromStateJsonLines \<Rightarrow> bool" where
  "buffers_ok cstate \<longleftrightarrow>
     input_buf_ok cstate \<and> (compression cstate \<noteq> PG_COMPRESSION_GZIP \<or> raw_buf_ok cstate)"



section \<open>Reading a whole stream, and what the round trip needs from the server\<close>

text \<open>The row that the arrays \<open>values\<close> and \<open>nulls\<close> stand for: a null cell is \<open>None\<close>.\<close>

definition decoded_row :: "'d list \<Rightarrow> bool list \<Rightarrow> 'd option list" where
  "decoded_row values nulls = map (\<lambda>(v, n). if n then None else Some v) (zip values nulls)"

text \<open>
  The driver of a read belongs to the server: it calls the one-row operation until that
  returns \<open>false\<close>, each time with the same two arrays, and collects the rows. An error
  ends the copy at once.
\<close>

partial_function (option) CopyFrom_loop ::
  "('z, 'n) host \<Rightarrow> ('z, 'd) CopyFromStateJsonLines \<Rightarrow> 'd list \<Rightarrow> bool list \<Rightarrow>
   'd option list list \<Rightarrow> (error + 'd option list list) option" where
  "CopyFrom_loop h cstate values nulls acc =
     (case JsonLinesCopyFromOneRow h cstate values nulls of
        None \<Rightarrow> None
      | Some (Inl e) \<Rightarrow> Some (Inl e)
      | Some (Inr (cstate', None)) \<Rightarrow> Some (Inr (rev acc))
      | Some (Inr (cstate', Some (values', nulls', tuplen))) \<Rightarrow>
          CopyFrom_loop h cstate' values' nulls' (decoded_row values' nulls' # acc))"

text \<open>
  The column values of the round trip: a text, a number or a boolean; a cell of a row
  is such a value or null (\<open>None\<close>).
\<close>

datatype 'n sql_value = TextValue string | NumericValue 'n | BoolValue bool

text \<open>
  What the server does with a value. \<open>json_of\<close> is the jsonb value that \<open>jsonb_in\<close>
  makes of the JSON form in which \<open>row_to_json\<close> writes the value. \<open>text_form\<close> is the
  text from which the server's input function of the column's type makes the value
  again: a text itself, a number as \<open>numeric_out\<close> prints it, a boolean as one of the
  words \<open>true\<close> and \<open>false\<close>.
\<close>

fun json_of :: "'n sql_value \<Rightarrow> 'n JsonbValue" where
  "json_of (TextValue s) = jbvString s"
| "json_of (NumericValue n) = jbvNumeric n"
| "json_of (BoolValue b) = jbvBool b"

fun text_form :: "('z, 'n) host \<Rightarrow> 'n sql_value \<Rightarrow> string" where
  "text_form h (TextValue s) = s"
| "text_form h (NumericValue n) = numeric_out h n"
| "text_form h (BoolValue b) = (if b then ''true'' else ''false'')"

text \<open>
  What the round trip of one cell needs from the server, given the object that
  \<open>jsonb_in\<close> made of the row's JSON text: the object has, under the column's name,
  JSON null for a null cell and the value's jsonb value otherwise, and the column's
  input function makes the value again from the value's text form.
\<close>

definition server_cell ::
  "('z, 'n) host \<Rightarrow> ('z, 'n sql_value) CopyFromStateJsonLines \<Rightarrow>
   (string \<times> 'n JsonbValue) list \<Rightarrow> int \<Rightarrow> 'n sql_value option \<Rightarrow> bool" where
  "server_cell h cstate pairs attnum cell =
     (let i = nat (attnum - 1)
      in case cell of
           None \<Rightarrow> map_of pairs (cstring (tupdesc cstate ! i)) = Some jbvNull
         | Some v \<Rightarrow>
             map_of pairs (cstring (tupdesc cstate ! i)) = Some (json_of v)
             \<and> (in_functions cstate ! i) (cstring (text_form h v)) = Some v)"

text \<open>
  What the round trip of a row needs from the server, given the row's JSON text: the
  text has no newline and no NUL byte, \<open>jsonb_in\<close> makes an object of it, and every
  target column's cell is in that object as above.
\<close>

definition server_round_trips ::
  "('z, 'n) host \<Rightarrow> ('z, 'n sql_value) CopyFromStateJsonLines \<Rightarrow> string \<Rightarrow>
   'n sql_value option list \<Rightarrow> bool" where
  "server_round_trips h cstate json row =
     (NL \<notin> set json \<and> NUL \<notin> set json \<and> length row = length (attnumlist cstate) \<and>
      (case jsonb_in h json of
         Some (JsonbObject pairs) \<Rightarrow>
           list_all (\<lambda>attnum. server_cell h cstate pairs attnum (row ! nat (attnum - 1)))
             (attnumlist cstate)
       | _ \<Rightarrow> False))"

text \<open>
  A table \<open>(a numeric, b text, c boolean)\<close> with two rows, their JSON lines, and
  stand-ins for the server's functions on them.
\<close>

definition roundtrip_line1 :: string where
  "roundtrip_line1 = ''{\"a\":1,\"b\":\"hello\",\"c\":true}''"

definition roundtrip_line2 :: string where
  "roundtrip_line2 = ''{\"a\":2,\"b\":null,\"c\":false}''"

definition roundtrip_row1 :: "int sql_value option list" where
  "roundtrip_row1 = [Some (NumericValue 1), Some (TextValue ''hello''), Some (BoolValue True)]"

definition roundtrip_row2 :: "int sql_value option list" where
  "roundtrip_row2 = [Some (NumericValue 2), None, Some (BoolValue False)]"

definition roundtrip_host :: "(unit, int) host" where
  "roundtrip_host =
     \<lparr>inflateInit2 = Some (),
      inflate = (\<lambda>z next_in n. (0, min (length next_in) n, take n next_in, z)),
      jsonb_in = (\<lambda>s.
        if s = roundtrip_line1
        then Some (JsonbObject [(''a'', jbvNumeric 1), (''b'', jbvString ''hello''),
                                (''c'', jbvBool True)])
        else if s = roundtrip_line2
        then Some (JsonbObject [(''a'', jbvNumeric 2), (''b'', jbvNull),
                                (''c'', jbvBool False)])
        else None),
      numeric_out = (\<lambda>n. if n = 1 then ''1'' else if n = 2 then ''2'' else ''0''),
      JsonbToCString = (\<lambda>c. ''{}'')\<rparr>"

definition roundtrip_numeric_in :: "string \<Rightarrow> int sql_value option" where
  "roundtrip_numeric_in s =
     (if s = ''0'' then Some (NumericValue 0) else if s = ''1'' then Some (NumericValue 1)
      else if s = ''2'' then Some (NumericValue 2) else None)"

definition roundtrip_textin :: "string \<Rightarrow> int sql_value option" where
  "roundtrip_textin s = Some (TextValue s)"

definition roundtrip_boolin :: "string \<Rightarrow> int sql_value option" where
  "roundtrip_boolin s =
     (if s = ''true'' then Some (BoolValue True)
      else if s = ''false'' then Some (BoolValue False) else None)"

definition roundtrip_cstate :: "(unit, int sql_value) CopyFromStateJsonLines" where
  "roundtrip_cstate =
     \<lparr>filename = ''rows.jsonl'', tupdesc = [''a'', ''b'', ''c''], attnumlist = [1, 2, 3],
      in_functions = [roundtrip_numeric_in, roundtrip_textin, roundtrip_boolin],
      bytes_processed = 0, source = [], compression = PG_COMPRESSION_NONE,
      strm = \<lparr>avail_in = 0, avail_out = 0, internal = ()\<rparr>,
      raw_buf = [], raw_buf_index = 0, raw_buf_len = 0, line_buf = [],
      input_buf = [], input_buf_index = 0, input_buf_len = 0,
      input_reached_eof = False, input_reached_error = False\<rparr>"

definition roundtrip_to_host :: "(unit, int sql_value option list) to_host" where
  "roundtrip_to_host =
     \<lparr>compress_specification = (\<lambda>algorithm detail. Inr 0),
      deflateInit2 = (\<lambda>level. Some ()),
      deflate = (\<lambda>z next_in flush_flag n. (0, min (length next_in) n, take n next_in, z)),
      deflateEnd = (\<lambda>z. z),
      row_to_json = (\<lambda>slot. if slot = roundtrip_row1 then roundtrip_line1 else roundtrip_line2)\<rparr>"

definition roundtrip_to_cstate :: "unit CopyToStateJsonLines" where
  "roundtrip_to_cstate =
     \<lparr>fe_msgbuf = [], copy_dest = [], options_compression = PG_COMPRESSION_NONE,
      options_compression_detail_str = None, options_level = 0,
      to_strm = \<lparr>avail_in = 0, avail_out = 0, internal = ()\<rparr>,
      inbuf = []\<rparr>"

section \<open>Properties of the line reader\<close>

lemma NL_neq_NUL: "NL \<noteq> NUL"
  by (simp add: NL_def NUL_def)

lemma strchr_found:
  "NL \<notin> set l \<Longrightarrow> NUL \<notin> set l \<Longrightarrow> strchr (l @ NL # r) NL = Found (length l)"
  by (induction l) auto

lemma strchr_null:
  "NL \<notin> set u \<Longrightarrow> strchr (u @ NUL # r) NL = Null"
  by (induction u) (auto simp: NL_neq_NUL NL_neq_NUL[symmetric])

lemma drop_input_buf:
  assumes "input_buf_ok c" "0 < INPUT_BUF_BYTES c"
  shows "drop (nat (input_buf_index c)) (input_buf c) = unread c @ [NUL]"
proof -
  let ?n = "nat (input_buf_len c)" and ?k = "nat (input_buf_index c)"
  from assms have len: "length (input_buf c) = Suc ?n"
    and nul: "input_buf c ! ?n = NUL"
    and idx: "0 \<le> input_buf_index c" "input_buf_index c < input_buf_len c"
    by (auto simp: input_buf_ok_def stream_buffer_ok_def INPUT_BUF_BYTES_def)
  have "take (Suc ?n) (input_buf c) = take ?n (input_buf c) @ [input_buf c ! ?n]"
    using len by (intro take_Suc_conv_app_nth) simp
  then have buf: "input_buf c = take ?n (input_buf c) @ [NUL]"
    using len nul by simp
  have k: "?k \<le> ?n" "nat (input_buf_len c - input_buf_index c) = ?n - ?k"
    using idx by (simp_all add: nat_diff_distrib')
  have "drop ?k (input_buf c) = drop ?k (take ?n (input_buf c)) @ [NUL]"
    by (subst buf) (use k len in simp)
  moreover have "unread c = drop ?k (take ?n (input_buf c))"
    unfolding unread_def k(2)
    by (subst buf) (use k len in \<open>simp add: drop_take\<close>)
  ultimately show ?thesis by simp
qed

lemma unread_nonempty:
  assumes "unread c \<noteq> []"
  shows "0 < INPUT_BUF_BYTES c"
proof (rule ccontr)
  assume "\<not> 0 < INPUT_BUF_BYTES c"
  then have "nat (input_buf_len c - input_buf_index c) = 0"
    by (simp add: INPUT_BUF_BYTES_def)
  then have "unread c = []" by (simp add: unread_def)
  with assms show False by simp
qed

lemma length_unread:
  assumes "input_buf_ok c"
  shows "int (length (unread c)) = INPUT_BUF_BYTES c"
proof (cases "0 < INPUT_BUF_BYTES c")
  case True
  have "length (unread c @ [NUL]) = length (drop (nat (input_buf_index c)) (input_buf c))"
    using drop_input_buf[OF assms True] by simp
  moreover have "length (input_buf c) = nat (input_buf_len c) + 1" "0 \<le> input_buf_index c"
    using assms True by (auto simp: input_buf_ok_def stream_buffer_ok_def INPUT_BUF_BYTES_def)
  ultimately show ?thesis using True by (simp add: INPUT_BUF_BYTES_def)
next
  case False
  then have "INPUT_BUF_BYTES c = 0"
    using assms by (auto simp: input_buf_ok_def stream_buffer_ok_def INPUT_BUF_BYTES_def)
  then show ?thesis by (simp add: unread_def INPUT_BUF_BYTES_def)
qed

lemma scan_found:
  assumes "input_buf_ok c" "unread c = l @ NL # r" "NL \<notin> set l" "NUL \<notin> set l"
  shows "scan_for_newline c =
           Inr (c\<lparr>line_buf := line_buf c @ l,
                  input_buf_index := input_buf_index c + int (length l) + 1\<rparr>, Break False)"
proof -
  have pos: "0 < INPUT_BUF_BYTES c"
    using assms(2) by (intro unread_nonempty) simp
  have d: "drop (nat (input_buf_index c)) (input_buf c) = l @ NL # r @ [NUL]"
    using drop_input_buf[OF assms(1) pos] assms(2) by simp
  show ?thesis
    by (simp add: scan_for_newline_def d strchr_found[OF assms(3,4)])
qed

lemma scan_null:
  assumes "input_buf_ok c" "0 < INPUT_BUF_BYTES c" "NL \<notin> set (unread c)"
  shows "scan_for_newline c =
           Inr (c\<lparr>line_buf := line_buf c @ unread c,
                  input_buf_index := input_buf_len c\<rparr>, Continue)"
  by (simp add: scan_for_newline_def drop_input_buf[OF assms(1,2)] strchr_null[OF assms(3)])

lemma after_found:
  assumes "input_buf_ok c" "unread c = l @ NL # r"
  defines "c' \<equiv> c\<lparr>line_buf := line_buf c @ l,
                   input_buf_index := input_buf_index c + int (length l) + 1\<rparr>"
  shows "unread c' = r" and "input_buf_ok c'"
proof -
  have pos: "0 < INPUT_BUF_BYTES c"
    using assms(2) by (intro unread_nonempty) simp
  have d: "drop (nat (input_buf_index c)) (input_buf c) = l @ NL # r @ [NUL]"
    using drop_input_buf[OF assms(1) pos] assms(2) by simp
  have idx: "0 \<le> input_buf_index c"
    using assms(1) by (auto simp: input_buf_ok_def stream_buffer_ok_def)
  have n: "INPUT_BUF_BYTES c = int (length l) + 1 + int (length r)"
    using length_unread[OF assms(1)] assms(2) by simp
  have i': "nat (input_buf_index c') = (length l + 1) + nat (input_buf_index c)"
    using idx by (simp add: c'_def nat_add_distrib)
  have "drop (nat (input_buf_index c')) (input_buf c')
        = drop (length l + 1) (drop (nat (input_buf_index c)) (input_buf c))"
    unfolding i' by (simp add: c'_def)
  also have "\<dots> = r @ [NUL]" by (simp add: d)
  finally have d': "drop (nat (input_buf_index c')) (input_buf c') = r @ [NUL]" .
  have k: "nat (input_buf_len c' - input_buf_index c') = length r"
    using n by (simp add: c'_def INPUT_BUF_BYTES_def)
  show "unread c' = r"
    by (simp add: unread_def d' k)
  show "input_buf_ok c'"
    using assms(1) idx n
    by (auto simp: input_buf_ok_def stream_buffer_ok_def c'_def INPUT_BUF_BYTES_def)
qed

lemma after_null:
  fixes b :: string
  assumes "input_buf_ok c"
  defines "c' \<equiv> c\<lparr>line_buf := b, input_buf_index := input_buf_len c\<rparr>"
  shows "unread c' = []" and "input_buf_ok c'" and "INPUT_BUF_BYTES c' = 0"
  using assms(1)
  by (auto simp: unread_def input_buf_ok_def stream_buffer_ok_def c'_def INPUT_BUF_BYTES_def)

lemma CopyFromGetData_concat:
  "CopyFromGetData src m = (d, src') \<Longrightarrow> concat src = d @ concat src'"
  by (induction src m rule: CopyFromGetData.induct) (auto split: if_splits)

lemma CopyFromGetData_length:
  "CopyFromGetData src m = (d, src') \<Longrightarrow> length d \<le> m"
  by (induction src m rule: CopyFromGetData.induct) (auto split: if_splits)

lemma CopyFromGetData_empty:
  "0 < m \<Longrightarrow> CopyFromGetData src m = (d, src') \<Longrightarrow> d = [] \<longleftrightarrow> concat src = []"
  by (induction src m rule: CopyFromGetData.induct) (auto split: if_splits)

lemma load_more_none:
  assumes "compression c = PG_COMPRESSION_NONE" "input_buf_ok c" "INPUT_BUF_BYTES c \<le> 0"
  shows "\<exists>c'. load_more h c = Inr c' \<and> input_buf_ok c' \<and> remaining c' = remaining c
              \<and> line_buf c' = line_buf c \<and> compression c' = PG_COMPRESSION_NONE
              \<and> (unread c' = [] \<longrightarrow> concat (source c) = [])
              \<and> input_buf_index c' = 0"
proof -
  obtain d src' where g: "CopyFromGetData (source c) INPUT_BUF_SIZE = (d, src')"
    by (cases "CopyFromGetData (source c) INPUT_BUF_SIZE")
  let ?c' = "c\<lparr>source := src', input_buf := d @ [NUL],
                input_buf_len := int (length d), input_buf_index := 0,
                bytes_processed := bytes_processed c + length d\<rparr>"
  have l: "load_more h c = Inr ?c'"
    using assms(1) g by (simp add: load_more_def)
  have u: "unread ?c' = d" by (simp add: unread_def)
  have u0: "unread c = []"
    using assms(3) by (simp add: unread_def INPUT_BUF_BYTES_def)
  have ok: "input_buf_ok ?c'"
    using CopyFromGetData_length[OF g]
    by (simp add: input_buf_ok_def stream_buffer_ok_def nth_append)
  show ?thesis
    using l u u0 ok CopyFromGetData_concat[OF g] assms(1)
      CopyFromGetData_empty[OF _ g]
    by (simp add: remaining_def INPUT_BUF_SIZE_def)
qed


lemma scan_line:
  assumes ok: "input_buf_ok c" and pos: "0 < INPUT_BUF_BYTES c"
    and rem: "remaining c = l @ NL # rest" and l: "NL \<notin> set l" "NUL \<notin> set l"
  shows "(\<exists>c'. scan_for_newline c = Inr (c', Break False) \<and> line_buf c' = line_buf c @ l
               \<and> remaining c' = rest \<and> input_buf_ok c' \<and> compression c' = compression c)
       \<or> (\<exists>c' u l'. scan_for_newline c = Inr (c', Continue) \<and> l = u @ l' \<and> u \<noteq> []
               \<and> line_buf c' = line_buf c @ u \<and> remaining c' = l' @ NL # rest
               \<and> input_buf_ok c' \<and> compression c' = compression c)"
proof (cases "NL \<in> set (unread c)")
  case True
  from rem have "unread c @ concat (source c) = l @ NL # rest"
    by (simp add: remaining_def)
  then obtain w where w: "(unread c = l @ w \<and> w @ concat (source c) = NL # rest)
                        \<or> (unread c @ w = l \<and> concat (source c) = w @ NL # rest)"
    by (auto simp: append_eq_append_conv2)
  from True l(1) w obtain r where r: "unread c = l @ NL # r" "rest = r @ concat (source c)"
    by (cases w) auto
  let ?c' = "c\<lparr>line_buf := line_buf c @ l,
               input_buf_index := input_buf_index c + int (length l) + 1\<rparr>"
  have "scan_for_newline c = Inr (?c', Break False)"
    by (rule scan_found[OF ok r(1) l])
  moreover have "unread ?c' = r" "input_buf_ok ?c'"
    using after_found[OF ok r(1)] by simp_all
  ultimately show ?thesis using r(2) by (auto simp: remaining_def)
next
  case False
  from rem have "unread c @ concat (source c) = l @ NL # rest"
    by (simp add: remaining_def)
  then obtain w where w: "(unread c = l @ w \<and> w @ concat (source c) = NL # rest)
                        \<or> (unread c @ w = l \<and> concat (source c) = w @ NL # rest)"
    by (auto simp: append_eq_append_conv2)
  from False w obtain l' where l': "l = unread c @ l'" "concat (source c) = l' @ NL # rest"
    by (cases w) auto
  let ?c' = "c\<lparr>line_buf := line_buf c @ unread c, input_buf_index := input_buf_len c\<rparr>"
  have "scan_for_newline c = Inr (?c', Continue)"
    by (rule scan_null[OF ok pos False])
  moreover have "unread ?c' = []" "input_buf_ok ?c'"
    using after_null[OF ok] by simp_all
  moreover have "unread c \<noteq> []"
    using length_unread[OF ok] pos by auto
  ultimately show ?thesis using l' by (auto simp: remaining_def)
qed

lemma body_line:
  assumes ok: "input_buf_ok c" and none: "compression c = PG_COMPRESSION_NONE"
    and rem: "remaining c = l @ NL # rest" and l: "NL \<notin> set l" "NUL \<notin> set l"
  shows "(\<exists>c'. JsonLineReadLine_body h c = Inr (c', Break False)
               \<and> line_buf c' = line_buf c @ l
               \<and> remaining c' = rest \<and> input_buf_ok c' \<and> compression c' = PG_COMPRESSION_NONE)
       \<or> (\<exists>c' u l'. JsonLineReadLine_body h c = Inr (c', Continue) \<and> l = u @ l' \<and> u \<noteq> []
               \<and> line_buf c' = line_buf c @ u \<and> remaining c' = l' @ NL # rest
               \<and> input_buf_ok c' \<and> compression c' = PG_COMPRESSION_NONE)"
proof (cases "INPUT_BUF_BYTES c \<le> 0")
  case False
  then show ?thesis
    using scan_line[OF ok _ rem l] none by (simp add: JsonLineReadLine_body_def)
next
  case True
  from load_more_none[OF none ok True, of h] obtain c1 where c1:
    "load_more h c = Inr c1" "input_buf_ok c1" "remaining c1 = remaining c"
    "line_buf c1 = line_buf c" "compression c1 = PG_COMPRESSION_NONE"
    "unread c1 = [] \<longrightarrow> concat (source c) = []"
    by blast
  have u0: "unread c = []" using True by (simp add: unread_def INPUT_BUF_BYTES_def)
  have pos: "0 < INPUT_BUF_BYTES c1"
  proof (rule ccontr)
    assume "\<not> 0 < INPUT_BUF_BYTES c1"
    then have "unread c1 = []" by (simp add: unread_def INPUT_BUF_BYTES_def)
    with c1(6) have "concat (source c) = []" by simp
    with u0 rem show False by (simp add: remaining_def)
  qed
  show ?thesis
    using scan_line[OF c1(2) pos, of l rest] c1 rem l True pos
    by (simp add: JsonLineReadLine_body_def)
qed

lemma loop_line:
  assumes "input_buf_ok c" "compression c = PG_COMPRESSION_NONE"
    "remaining c = l @ NL # rest" "NL \<notin> set l" "NUL \<notin> set l"
  shows "\<exists>c'. JsonLineReadLine_loop h c = Some (Inr (c', False))
              \<and> line_buf c' = line_buf c @ l \<and> remaining c' = rest
              \<and> input_buf_ok c' \<and> compression c' = PG_COMPRESSION_NONE"
  using assms
proof (induction "length l" arbitrary: c l rule: less_induct)
  case less
  from body_line[OF less.prems, of h]
  show ?case
  proof (elim disjE exE conjE)
    fix c'
    assume "JsonLineReadLine_body h c = Inr (c', Break False)"
      "line_buf c' = line_buf c @ l" "remaining c' = rest" "input_buf_ok c'"
      "compression c' = PG_COMPRESSION_NONE"
    then show ?thesis
      by (subst JsonLineReadLine_loop.simps) simp
  next
    fix c' u l'
    assume b: "JsonLineReadLine_body h c = Inr (c', Continue)"
      and s: "l = u @ l'" "u \<noteq> []" "line_buf c' = line_buf c @ u"
      "remaining c' = l' @ NL # rest" "input_buf_ok c'"
      "compression c' = PG_COMPRESSION_NONE"
    have "length l' < length l" using s(1,2) by simp
    moreover have "NL \<notin> set l'" "NUL \<notin> set l'" using less.prems(4,5) s(1) by auto
    ultimately obtain c'' where
      "JsonLineReadLine_loop h c' = Some (Inr (c'', False))"
      "line_buf c'' = line_buf c' @ l'" "remaining c'' = rest" "input_buf_ok c''"
      "compression c'' = PG_COMPRESSION_NONE"
      using less.hyps[of l' c'] s(4,5,6) by blast
    then show ?thesis
      using b s(1,3) by (subst JsonLineReadLine_loop.simps) simp
  qed
qed

lemma body_eof:
  assumes ok: "input_buf_ok c" and none: "compression c = PG_COMPRESSION_NONE"
    and nonl: "NL \<notin> set (remaining c)"
  shows "(\<exists>c'. JsonLineReadLine_body h c = Inr (c', Break True)
               \<and> remaining c = [] \<and> line_buf c' = line_buf c \<and> remaining c' = []
               \<and> input_buf_ok c' \<and> compression c' = PG_COMPRESSION_NONE)
       \<or> (\<exists>c'. JsonLineReadLine_body h c = Inr (c', Continue)
               \<and> length (remaining c') < length (remaining c)
               \<and> set (remaining c') \<subseteq> set (remaining c)
               \<and> line_buf c' @ remaining c' = line_buf c @ remaining c
               \<and> input_buf_ok c' \<and> compression c' = PG_COMPRESSION_NONE)"
proof -
  have scan: "(\<exists>c'. scan_for_newline c1 = Inr (c', Continue)
               \<and> length (remaining c') < length (remaining c1)
               \<and> set (remaining c') \<subseteq> set (remaining c1)
               \<and> line_buf c' @ remaining c' = line_buf c1 @ remaining c1
               \<and> input_buf_ok c' \<and> compression c' = compression c1)"
    if c1: "input_buf_ok c1" "0 < INPUT_BUF_BYTES c1" "NL \<notin> set (remaining c1)" for c1 :: "('a, 'b) CopyFromStateJsonLines"
  proof -
    let ?c' = "c1\<lparr>line_buf := line_buf c1 @ unread c1, input_buf_index := input_buf_len c1\<rparr>"
    have "NL \<notin> set (unread c1)" using c1(3) by (simp add: remaining_def)
    then have "scan_for_newline c1 = Inr (?c', Continue)"
      by (rule scan_null[OF c1(1,2)])
    moreover have "unread ?c' = []" "input_buf_ok ?c'"
      using after_null[OF c1(1)] by simp_all
    moreover have "unread c1 \<noteq> []"
      using length_unread[OF c1(1)] c1(2) by auto
    ultimately show ?thesis by (auto simp: remaining_def)
  qed
  show ?thesis
  proof (cases "INPUT_BUF_BYTES c \<le> 0")
    case False
    then show ?thesis
      using scan[OF ok _ nonl] none by (simp add: JsonLineReadLine_body_def)
  next
    case True
    from load_more_none[OF none ok True, of h] obtain c1 where c1:
      "load_more h c = Inr c1" "input_buf_ok c1" "remaining c1 = remaining c"
      "line_buf c1 = line_buf c" "compression c1 = PG_COMPRESSION_NONE"
      "unread c1 = [] \<longrightarrow> concat (source c) = []"
      by blast
    have u0: "unread c = []" using True by (simp add: unread_def INPUT_BUF_BYTES_def)
    show ?thesis
    proof (cases "INPUT_BUF_BYTES c1 \<le> 0")
      case False
      then show ?thesis
        using scan[OF c1(2), of ] c1 nonl True by (simp add: JsonLineReadLine_body_def)
    next
      case t: True
      then have "unread c1 = []" by (simp add: unread_def INPUT_BUF_BYTES_def)
      with c1(6) u0 have "remaining c = []" by (simp add: remaining_def)
      then show ?thesis
        using c1 True t by (simp add: JsonLineReadLine_body_def)
    qed
  qed
qed

lemma loop_eof:
  assumes "input_buf_ok c" "compression c = PG_COMPRESSION_NONE" "NL \<notin> set (remaining c)"
  shows "\<exists>c'. JsonLineReadLine_loop h c = Some (Inr (c', True))
              \<and> line_buf c' = line_buf c @ remaining c \<and> remaining c' = []
              \<and> input_buf_ok c' \<and> compression c' = PG_COMPRESSION_NONE"
  using assms
proof (induction "length (remaining c)" arbitrary: c rule: less_induct)
  case less
  from body_eof[OF less.prems, of h]
  show ?case
  proof (elim disjE exE conjE)
    fix c'
    assume "JsonLineReadLine_body h c = Inr (c', Break True)"
      "remaining c = []" "line_buf c' = line_buf c" "remaining c' = []" "input_buf_ok c'"
      "compression c' = PG_COMPRESSION_NONE"
    then show ?thesis
      by (subst JsonLineReadLine_loop.simps) simp
  next
    fix c'
    assume b: "JsonLineReadLine_body h c = Inr (c', Continue)"
      and s: "length (remaining c') < length (remaining c)"
      "line_buf c' @ remaining c' = line_buf c @ remaining c" "input_buf_ok c'"
      "compression c' = PG_COMPRESSION_NONE"
      and sub: "set (remaining c') \<subseteq> set (remaining c)"
    have "NL \<notin> set (remaining c')" using sub less.prems(3) by auto
    then obtain c'' where
      "JsonLineReadLine_loop h c' = Some (Inr (c'', True))"
      "line_buf c'' = line_buf c' @ remaining c'" "remaining c'' = []" "input_buf_ok c''"
      "compression c'' = PG_COMPRESSION_NONE"
      using less.hyps[of c'] s by blast
    then show ?thesis
      using b s(2) by (subst JsonLineReadLine_loop.simps) simp
  qed
qed

section \<open>The start of a read\<close>

lemma strrchr_None: "strrchr s c = None \<longleftrightarrow> c \<notin> set s"
  by (induction s) (auto split: option.splits)

lemma strrchr_suffix: "strrchr s c = Some e \<Longrightarrow> suffix e s \<and> e \<noteq> [] \<and> hd e = c \<and> c \<notin> set (tl e)"
  by (induction s arbitrary: e) (auto split: option.splits if_splits simp: suffix_Cons strrchr_None)

lemma strrchr_gz:
  assumes "strrchr s (CHR ''.'') = Some e"
  shows "e = ''.gz'' \<longleftrightarrow> suffix ''.gz'' s"
proof
  assume "e = ''.gz''" then show "suffix ''.gz'' s" using strrchr_suffix[OF assms] by simp
next
  assume g: "suffix ''.gz'' s"
  then obtain p where p: "s = p @ ''.gz''" by (auto simp: suffix_def)
  have "strrchr (p @ ''.gz'') (CHR ''.'') = Some ''.gz''"
    by (induction p) auto
  then show "e = ''.gz''" using assms p by simp
qed

text \<open>
  C2. The claim: for every source file name the start operation selects gzip exactly
  when the name ends with \<open>.gz\<close>, and never fails. For a name with a dot this is
  \<open>JsonLinesCopyFromStart_suffix\<close> below. For the name \<open>data\<close>, which has no dot,
  \<open>strrchr\<close> returns the NULL pointer and the start operation hands it to \<open>strcmp\<close>:
  no path is selected.
\<close>

theorem C2_start_name_without_dot:
  "JsonLinesCopyFromStart h (cstate\<lparr>filename := ''data''\<rparr>)
     = Inl (UNDEFINED_BEHAVIOUR ''strcmp(NULL, .gz)'')"
  by (simp add: JsonLinesCopyFromStart_def)

lemma JsonLinesCopyFromStart_suffix:
  assumes "CHR ''.'' \<in> set (filename cstate)" "inflateInit2 h \<noteq> None"
  shows "\<exists>c'. JsonLinesCopyFromStart h cstate = Inr c' \<and>
     compression c' = (if suffix ''.gz'' (filename cstate) then PG_COMPRESSION_GZIP else PG_COMPRESSION_NONE)"
proof -
  from assms(1) obtain e where e: "strrchr (filename cstate) (CHR ''.'') = Some e"
    using strrchr_None[of "filename cstate" "CHR ''.''"] by (cases "strrchr (filename cstate) (CHR ''.'')") auto
  from assms(2) obtain z where z: "inflateInit2 h = Some z" by auto
  show ?thesis
    using strrchr_gz[OF e] e z
    by (auto simp: JsonLinesCopyFromStart_def initialize_inflate_gzip_def)
qed

section \<open>Running the line reader on given bytes\<close>

lemma loop_Break:
  "JsonLineReadLine_body h c = Inr (c', Break r) \<Longrightarrow>
   JsonLineReadLine_loop h c = Some (Inr (c', r))"
  by (subst JsonLineReadLine_loop.simps) simp

lemma loop_Continue:
  "JsonLineReadLine_body h c = Inr (c', Continue) \<Longrightarrow>
   JsonLineReadLine_loop h c = JsonLineReadLine_loop h c'"
  by (subst JsonLineReadLine_loop.simps) simp

lemma loop_error:
  "JsonLineReadLine_body h c = Inl e \<Longrightarrow> JsonLineReadLine_loop h c = Some (Inl e)"
  by (subst JsonLineReadLine_loop.simps) simp

lemmas eval_defs =
  JsonLineReadLine_body_def scan_for_newline_def load_more_def unread_def
  INPUT_BUF_BYTES_def example_cstate_def NL_def NUL_def

text \<open>
  C3. The claim: whenever the unread part of the Input Buffer contains a newline, the
  line reader takes exactly the bytes before the first newline and stops with a complete
  line. With a NUL byte before the newline, \<open>strchr\<close> stops at the NUL and finds no
  newline: on the unread bytes \<open>1 NUL \n 2 \n\<close> and an exhausted source the reader puts
  all five bytes, both newlines included, into the Line Buffer and reports the end of
  the input.
\<close>

theorem C3_newline_behind_NUL:
  "JsonLineReadLine example_host
     (example_cstate\<lparr>input_buf := [CHR ''1'', NUL, NL, CHR ''2'', NL, NUL],
        input_buf_index := 0, input_buf_len := 5\<rparr>)
   = Some (Inr (example_cstate\<lparr>input_buf := [NUL],
                  line_buf := [CHR ''1'', NUL, NL, CHR ''2'', NL]\<rparr>, True))"
proof -
  let ?c0 = "example_cstate\<lparr>input_buf := [CHR ''1'', NUL, NL, CHR ''2'', NL, NUL],
        input_buf_index := 0, input_buf_len := 5, line_buf := []\<rparr>"
  let ?c1 = "?c0\<lparr>line_buf := [CHR ''1'', NUL, NL, CHR ''2'', NL], input_buf_index := 5\<rparr>"
  have 1: "JsonLineReadLine_body example_host ?c0 = Inr (?c1, Continue)"
    by (simp add: eval_defs)
  have 2: "JsonLineReadLine_body example_host ?c1
     = Inr (example_cstate\<lparr>input_buf := [NUL],
              line_buf := [CHR ''1'', NUL, NL, CHR ''2'', NL]\<rparr>, Break True)"
    by (simp add: eval_defs)
  show ?thesis
    unfolding JsonLineReadLine_def
    using loop_Continue[OF 1] loop_Break[OF 2] by (simp add: example_cstate_def)
qed


lemma JsonLineReadLine_line:
  assumes "input_buf_ok c" "compression c = PG_COMPRESSION_NONE"
    "remaining c = l @ NL # rest" "NL \<notin> set l" "NUL \<notin> set l"
  shows "\<exists>c'. JsonLineReadLine h c = Some (Inr (c', False))
              \<and> line_buf c' = l \<and> remaining c' = rest
              \<and> input_buf_ok c' \<and> compression c' = PG_COMPRESSION_NONE"
proof -
  let ?c = "c\<lparr>line_buf := []\<rparr>"
  have "input_buf_ok ?c" "compression ?c = PG_COMPRESSION_NONE" "remaining ?c = l @ NL # rest"
    using assms(1,2,3) by (simp_all add: input_buf_ok_def remaining_def unread_def)
  from loop_line[OF this assms(4,5), of h] show ?thesis
    by (simp add: JsonLineReadLine_def)
qed

lemma JsonLineReadLine_eof:
  assumes "input_buf_ok c" "compression c = PG_COMPRESSION_NONE" "NL \<notin> set (remaining c)"
  shows "\<exists>c'. JsonLineReadLine h c = Some (Inr (c', True))
              \<and> line_buf c' = remaining c \<and> remaining c' = []
              \<and> input_buf_ok c' \<and> compression c' = PG_COMPRESSION_NONE"
proof -
  let ?c = "c\<lparr>line_buf := []\<rparr>"
  have "input_buf_ok ?c" "compression ?c = PG_COMPRESSION_NONE" "NL \<notin> set (remaining ?c)"
    using assms(1,2,3) by (simp_all add: input_buf_ok_def remaining_def unread_def)
  from loop_eof[OF this, of h] show ?thesis
    by (simp add: JsonLineReadLine_def remaining_def unread_def)
qed

text \<open>
  C5. The claim: however the bytes of the stream are split into refill chunks, the line
  reader assembles the same line. For a line without a NUL byte this is
  \<open>JsonLineReadLine_line\<close> above. The stream \<open>1 NUL \n 2 \n\<close> arriving in one chunk
  gives no line at all (all five bytes go to the Line Buffer and the end of the input is
  reported); the same stream arriving as \<open>1 NUL\<close> and \<open>\n 2 \n\<close> gives the line
  \<open>1 NUL\<close>.
\<close>

theorem C5_line_depends_on_chunks:
  "JsonLineReadLine example_host
     (example_cstate\<lparr>source := [[CHR ''1'', NUL, NL, CHR ''2'', NL]]\<rparr>)
   = Some (Inr (example_cstate\<lparr>input_buf := [NUL], bytes_processed := 5,
                  line_buf := [CHR ''1'', NUL, NL, CHR ''2'', NL]\<rparr>, True))
   \<and> JsonLineReadLine example_host
     (example_cstate\<lparr>source := [[CHR ''1'', NUL], [NL, CHR ''2'', NL]]\<rparr>)
   = Some (Inr (example_cstate\<lparr>input_buf := [NL, CHR ''2'', NL, NUL], input_buf_len := 3,
                  input_buf_index := 1, bytes_processed := 5,
                  line_buf := [CHR ''1'', NUL]\<rparr>, False))"
proof -
  let ?a0 = "example_cstate\<lparr>source := [[CHR ''1'', NUL, NL, CHR ''2'', NL]], line_buf := []\<rparr>"
  let ?a1 = "example_cstate\<lparr>input_buf := [CHR ''1'', NUL, NL, CHR ''2'', NL, NUL],
               input_buf_len := 5, input_buf_index := 5, bytes_processed := 5,
               line_buf := [CHR ''1'', NUL, NL, CHR ''2'', NL]\<rparr>"
  have a1: "JsonLineReadLine_body example_host ?a0 = Inr (?a1, Continue)"
    by (simp add: eval_defs INPUT_BUF_SIZE_def)
  have a2: "JsonLineReadLine_body example_host ?a1
     = Inr (example_cstate\<lparr>input_buf := [NUL], bytes_processed := 5,
                  line_buf := [CHR ''1'', NUL, NL, CHR ''2'', NL]\<rparr>, Break True)"
    by (simp add: eval_defs INPUT_BUF_SIZE_def)
  let ?b0 = "example_cstate\<lparr>source := [[CHR ''1'', NUL], [NL, CHR ''2'', NL]], line_buf := []\<rparr>"
  let ?b1 = "example_cstate\<lparr>source := [[NL, CHR ''2'', NL]], input_buf := [CHR ''1'', NUL, NUL],
               input_buf_len := 2, input_buf_index := 2, bytes_processed := 2,
               line_buf := [CHR ''1'', NUL]\<rparr>"
  have b1: "JsonLineReadLine_body example_host ?b0 = Inr (?b1, Continue)"
    by (simp add: eval_defs INPUT_BUF_SIZE_def)
  have b2: "JsonLineReadLine_body example_host ?b1
     = Inr (example_cstate\<lparr>input_buf := [NL, CHR ''2'', NL, NUL], input_buf_len := 3,
                  input_buf_index := 1, bytes_processed := 5,
                  line_buf := [CHR ''1'', NUL]\<rparr>, Break False)"
    by (simp add: eval_defs INPUT_BUF_SIZE_def)
  show ?thesis
    unfolding JsonLineReadLine_def
    using loop_Continue[OF a1] loop_Break[OF a2] loop_Continue[OF b1] loop_Break[OF b2]
    by (simp add: example_cstate_def)
qed

section \<open>Properties of the row decoder\<close>

lemma cell_decoded_cong:
  "v' ! nat (a - 1) = v ! nat (a - 1) \<Longrightarrow> n' ! nat (a - 1) = n ! nat (a - 1) \<Longrightarrow>
   cell_decoded h c pairs a v' n' = cell_decoded h c pairs a v n"
  by (simp add: cell_decoded_def Let_def cong: option.case_cong sum.case_cong if_cong)

lemma foreach_Cons:
  assumes "JsonLinesCopyFromOneRow_foreach h c jb (a # lc) vals nls buf = Inr r"
  shows "\<exists>vals1 nls1 buf1.
           JsonLinesCopyFromOneRow_foreach h c jb lc vals1 nls1 buf1 = Inr r
         \<and> 1 \<le> a \<and> a \<le> int (length vals) \<and> a \<le> int (length nls)
         \<and> length vals1 = length vals \<and> length nls1 = length nls
         \<and> (\<forall>j. j \<noteq> nat (a - 1) \<longrightarrow> vals1 ! j = vals ! j \<and> nls1 ! j = nls ! j)
         \<and> (buf = [] \<longrightarrow> buf1 = [])
         \<and> (\<forall>pairs. jb = JsonbObject pairs \<and> buf = [] \<longrightarrow> cell_decoded h c pairs a vals1 nls1)
         \<and> (\<exists>pairs. jb = JsonbObject pairs)"
proof -
  have b: "1 \<le> a" "a \<le> int (length vals)" "a \<le> int (length nls)"
    using assms by (auto split: if_splits)
  then have i: "nat (a - 1) < length vals" "nat (a - 1) < length nls" by auto
  from assms b obtain pairs where jb: "jb = JsonbObject pairs"
    by (cases jb) (auto simp: Let_def getKeyJsonValueFromContainer_def split: if_splits)
  let ?i = "nat (a - 1)"
  let ?k = "cstring (tupdesc c ! ?i)"
  show ?thesis
  proof (cases "map_of pairs ?k")
    case None
    then have "JsonLinesCopyFromOneRow_foreach h c jb lc vals (nls[?i := True]) buf = Inr r"
      using assms jb by (simp add: Let_def getKeyJsonValueFromContainer_def split: if_splits)
    moreover have "cell_decoded h c pairs a vals (nls[?i := True])"
      using None i by (simp add: cell_decoded_def)
    ultimately show ?thesis using b jb by (intro exI[of _ vals] exI[of _ "nls[?i := True]"] exI[of _ buf]) auto
  next
    case (Some v)
    show ?thesis
    proof (cases "v = jbvNull")
      case True
      then have "JsonLinesCopyFromOneRow_foreach h c jb lc vals (nls[?i := True]) buf = Inr r"
        using assms jb Some by (simp add: Let_def getKeyJsonValueFromContainer_def split: if_splits)
      moreover have "cell_decoded h c pairs a vals (nls[?i := True])"
        using Some True i by (simp add: cell_decoded_def)
      ultimately show ?thesis using b jb by (intro exI[of _ vals] exI[of _ "nls[?i := True]"] exI[of _ buf]) auto
    next
      case False
      from assms jb Some False obtain str d where
        t: "GetJsonbValueAsCString h v buf = Inr str"
        and d: "(in_functions c ! ?i) (cstring str) = Some d"
        and r: "JsonLinesCopyFromOneRow_foreach h c jb lc (vals[?i := d]) (nls[?i := False]) [] = Inr r"
        by (auto simp: Let_def getKeyJsonValueFromContainer_def split: if_splits sum.splits option.splits)
      have "buf = [] \<longrightarrow> cell_decoded h c pairs a (vals[?i := d]) (nls[?i := False])"
        using Some False i t d by (auto simp: cell_decoded_def)
      then show ?thesis using r b jb
        by (intro exI[of _ "vals[?i := d]"] exI[of _ "nls[?i := False]"] exI[of _ "[]"]) auto
    qed
  qed
qed

lemma foreach_length:
  "JsonLinesCopyFromOneRow_foreach h c jb lc vals nls buf = Inr (v', n') \<Longrightarrow>
   length v' = length vals \<and> length n' = length nls"
proof (induction lc arbitrary: vals nls buf)
  case Nil
  then show ?case by simp
next
  case (Cons a lc)
  from foreach_Cons[OF Cons.prems] obtain vals1 nls1 buf1 where
    "JsonLinesCopyFromOneRow_foreach h c jb lc vals1 nls1 buf1 = Inr (v', n')"
    "length vals1 = length vals" "length nls1 = length nls" by blast
  with Cons.IH[of vals1 nls1 buf1] show ?case by simp
qed

lemma foreach_bounds:
  "JsonLinesCopyFromOneRow_foreach h c jb lc vals nls buf = Inr (v', n') \<Longrightarrow> a \<in> set lc \<Longrightarrow>
   1 \<le> a \<and> a \<le> int (length vals) \<and> a \<le> int (length nls)"
proof (induction lc arbitrary: vals nls buf)
  case Nil
  then show ?case by simp
next
  case (Cons b lc)
  from foreach_Cons[OF Cons.prems(1)] obtain vals1 nls1 buf1 where s:
    "JsonLinesCopyFromOneRow_foreach h c jb lc vals1 nls1 buf1 = Inr (v', n')"
    "length vals1 = length vals" "length nls1 = length nls"
    "1 \<le> b" "b \<le> int (length vals)" "b \<le> int (length nls)" by blast
  show ?case
  proof (cases "a = b")
    case True
    then show ?thesis using s by simp
  next
    case False
    then have "a \<in> set lc" using Cons.prems(2) by simp
    from Cons.IH[OF s(1) this] s(2,3) show ?thesis by simp
  qed
qed

lemma foreach_frame:
  "JsonLinesCopyFromOneRow_foreach h c jb lc vals nls buf = Inr (v', n') \<Longrightarrow>
   \<forall>a\<in>set lc. nat (a - 1) \<noteq> i \<Longrightarrow> v' ! i = vals ! i \<and> n' ! i = nls ! i"
proof (induction lc arbitrary: vals nls buf)
  case Nil
  then show ?case by simp
next
  case (Cons b lc)
  from foreach_Cons[OF Cons.prems(1)] obtain vals1 nls1 buf1 where s:
    "JsonLinesCopyFromOneRow_foreach h c jb lc vals1 nls1 buf1 = Inr (v', n')"
    "\<forall>j. j \<noteq> nat (b - 1) \<longrightarrow> vals1 ! j = vals ! j \<and> nls1 ! j = nls ! j" by blast
  have "\<forall>a\<in>set lc. nat (a - 1) \<noteq> i" "i \<noteq> nat (b - 1)" using Cons.prems(2) by auto
  with Cons.IH[OF s(1)] s(2) show ?case by simp
qed

lemma foreach_cells:
  "JsonLinesCopyFromOneRow_foreach h c (JsonbObject pairs) lc vals nls [] = Inr (v', n') \<Longrightarrow>
   a \<in> set lc \<Longrightarrow> cell_decoded h c pairs a v' n'"
proof (induction lc arbitrary: vals nls)
  case Nil
  then show ?case by simp
next
  case (Cons b lc)
  from foreach_Cons[OF Cons.prems(1)] obtain vals1 nls1 where s:
    "JsonLinesCopyFromOneRow_foreach h c (JsonbObject pairs) lc vals1 nls1 [] = Inr (v', n')"
    "cell_decoded h c pairs b vals1 nls1" "1 \<le> b" by blast
  show ?case
  proof (cases "a \<in> set lc")
    case True
    from Cons.IH[OF s(1) True] show ?thesis .
  next
    case False
    then have ab: "a = b" using Cons.prems(2) by simp
    have "\<forall>x\<in>set lc. nat (x - 1) \<noteq> nat (b - 1)"
    proof
      fix x assume x: "x \<in> set lc"
      from foreach_bounds[OF s(1) x] have "1 \<le> x" by simp
      moreover have "x \<noteq> b" using x False ab by auto
      ultimately show "nat (x - 1) \<noteq> nat (b - 1)" using s(3) by auto
    qed
    from foreach_frame[OF s(1) this] have "v' ! nat (b - 1) = vals1 ! nat (b - 1)"
      "n' ! nat (b - 1) = nls1 ! nat (b - 1)" by simp_all
    from cell_decoded_cong[OF this, of h c pairs] show ?thesis using s(2) ab
      by simp
  qed
qed



section \<open>Properties of reading one row\<close>

lemma OneRow_eof:
  "JsonLineReadLine h c0 = Some (Inr (c, True)) \<Longrightarrow>
   JsonLinesCopyFromOneRow h c0 vals nls = Some (Inr (c, None))"
  by (simp add: JsonLinesCopyFromOneRow_def)


lemma OneRow_parsed:
  "JsonLineReadLine h c0 = Some (Inr (c, False)) \<Longrightarrow> jsonb_in h (cstring (line_buf c)) = Some jb \<Longrightarrow>
   JsonLinesCopyFromOneRow h c0 vals nls =
     (case JsonLinesCopyFromOneRow_foreach h c jb (attnumlist c) vals nls [] of
        Inl e \<Rightarrow> Some (Inl e)
      | Inr (v', n') \<Rightarrow> Some (Inr (c, Some (v', n', length (line_buf c)))))"
  by (simp add: JsonLinesCopyFromOneRow_def)











section \<open>The Stream Buffer invariant\<close>

lemma strchr_Found_less:
  "strchr (u @ [NUL]) NL = Found k \<Longrightarrow> k < length u"
  by (induction u arbitrary: k) (auto simp: NL_neq_NUL NL_neq_NUL[symmetric] split: if_splits scan.splits)


lemma Start_buffers_ok:
  "JsonLinesCopyFromStart h c = Inr c' \<Longrightarrow> buffers_ok c'"
  by (auto simp: JsonLinesCopyFromStart_def buffers_ok_def input_buf_ok_def raw_buf_ok_def
        stream_buffer_ok_def initialize_inflate_gzip_def
        split: option.splits if_splits sum.splits)

lemma read_gzip_refill_ok:
  assumes "raw_buf_ok c"
  shows "raw_buf_ok (read_gzip_refill c)"
proof (cases "RAW_BUF_BYTES c = 0")
  case False
  then show ?thesis using assms by (simp add: read_gzip_refill_def)
next
  case True
  obtain d src where g: "CopyFromGetData (source c) RAW_BUF_SIZE = (d, src)"
    by (cases "CopyFromGetData (source c) RAW_BUF_SIZE")
  from CopyFromGetData_length[OF g] show ?thesis
    using True g by (simp add: read_gzip_refill_def raw_buf_ok_def stream_buffer_ok_def)
qed

lemma read_gzip_refill_frame:
  "input_buf (read_gzip_refill c) = input_buf c"
  "input_buf_index (read_gzip_refill c) = input_buf_index c"
  "input_buf_len (read_gzip_refill c) = input_buf_len c"
  "compression (read_gzip_refill c) = compression c"
  "strm (read_gzip_refill c) = strm c"
  "line_buf (read_gzip_refill c) = line_buf c"
  by (simp_all add: read_gzip_refill_def split: prod.splits)

lemma read_gzip_refill_only_when_empty:
  "RAW_BUF_BYTES c \<noteq> 0 \<Longrightarrow> read_gzip_refill c = c"
  "RAW_BUF_BYTES c = 0 \<Longrightarrow> raw_buf_index (read_gzip_refill c) = 0"
  by (simp_all add: read_gzip_refill_def split: prod.splits)

lemma read_gzip_step:
  assumes r: "read_gzip h c = Inr c'" and ok: "raw_buf_ok c"
    and i: "inflate h (internal (strm c))
              (take (nat (RAW_BUF_BYTES (read_gzip_refill c)))
                 (drop (nat (raw_buf_index (read_gzip_refill c))) (raw_buf (read_gzip_refill c))))
              INPUT_BUF_SIZE = (ret, used, out, z)"
  shows "raw_buf_index c' = raw_buf_index (read_gzip_refill c)
                            + int (min used (nat (RAW_BUF_BYTES (read_gzip_refill c))))"
    and "input_buf_len c' = int (length (take INPUT_BUF_SIZE out))"
    and "input_buf_index c' = 0"
    and "input_buf c' = take INPUT_BUF_SIZE out @ [NUL]"
    and "raw_buf_len c' = raw_buf_len (read_gzip_refill c)"
    and "compression c' = compression c"
proof -
  let ?c = "read_gzip_refill c"
  have ok1: "raw_buf_ok ?c" by (rule read_gzip_refill_ok[OF ok])
  then have n: "0 \<le> RAW_BUF_BYTES ?c" "RAW_BUF_BYTES ?c \<le> int RAW_BUF_SIZE"
    by (auto simp: raw_buf_ok_def stream_buffer_ok_def RAW_BUF_BYTES_def)
  then have "RAW_BUF_BYTES ?c < 2 ^ 64" by (simp add: RAW_BUF_SIZE_def)
  with n have sz: "Size_of_int (RAW_BUF_BYTES ?c) = nat (RAW_BUF_BYTES ?c)"
    by (simp add: Size_of_int_def)
  let ?n = "nat (RAW_BUF_BYTES ?c)"
  have ci: "call_inflate h ((strm ?c)\<lparr>avail_in := ?n, avail_out := INPUT_BUF_SIZE\<rparr>)
              (drop (nat (raw_buf_index ?c)) (raw_buf ?c))
            = (ret, take INPUT_BUF_SIZE out,
               \<lparr>avail_in = ?n - min used ?n,
                avail_out = INPUT_BUF_SIZE - length (take INPUT_BUF_SIZE out), internal = z\<rparr>)"
    using i by (simp add: call_inflate_def read_gzip_refill_frame)
  have c': "c' = ?c\<lparr>strm := \<lparr>avail_in = ?n - min used ?n,
                avail_out = INPUT_BUF_SIZE - length (take INPUT_BUF_SIZE out), internal = z\<rparr>,
              raw_buf_index := raw_buf_index ?c + int (?n - (?n - min used ?n)),
              input_buf := take (INPUT_BUF_SIZE - (INPUT_BUF_SIZE - length (take INPUT_BUF_SIZE out)))
                             (take INPUT_BUF_SIZE out) @ [NUL],
              input_buf_len := int (INPUT_BUF_SIZE - (INPUT_BUF_SIZE - length (take INPUT_BUF_SIZE out))),
              input_buf_index := 0\<rparr>"
    using r by (simp add: read_gzip_def Let_def sz ci split: if_splits)
  have w: "INPUT_BUF_SIZE - (INPUT_BUF_SIZE - length (take INPUT_BUF_SIZE out))
           = length (take INPUT_BUF_SIZE out)" by simp
  have u: "?n - (?n - min used ?n) = min used ?n" by simp
  show "raw_buf_index c' = raw_buf_index ?c + int (min used ?n)"
    unfolding c' u by simp
  show "input_buf_len c' = int (length (take INPUT_BUF_SIZE out))"
    unfolding c' w by simp
  show "input_buf_index c' = 0" unfolding c' by simp
  have "take (length (take INPUT_BUF_SIZE out)) (take INPUT_BUF_SIZE out) = take INPUT_BUF_SIZE out"
    by (rule take_all) simp
  then show "input_buf c' = take INPUT_BUF_SIZE out @ [NUL]" unfolding c' w by simp
  show "raw_buf_len c' = raw_buf_len ?c" unfolding c' by simp
  show "compression c' = compression c" unfolding c' by (simp add: read_gzip_refill_frame)
qed

lemma read_gzip_buffers_ok:
  assumes r: "read_gzip h c = Inr c'" and ok: "raw_buf_ok c"
  shows "input_buf_ok c' \<and> raw_buf_ok c' \<and> compression c' = compression c"
proof -
  let ?c = "read_gzip_refill c"
  obtain ret used out z where i: "inflate h (internal (strm c))
              (take (nat (RAW_BUF_BYTES ?c)) (drop (nat (raw_buf_index ?c)) (raw_buf ?c)))
              INPUT_BUF_SIZE = (ret, used, out, z)"
    using prod_cases4 by blast
  note s = read_gzip_step[OF r ok i]
  have ok1: "raw_buf_ok ?c" by (rule read_gzip_refill_ok[OF ok])
  have "input_buf_ok c'"
    unfolding input_buf_ok_def stream_buffer_ok_def s(2,3,4)
    by (simp add: nth_append)
  moreover have "raw_buf_ok c'"
    using ok1 unfolding raw_buf_ok_def stream_buffer_ok_def s(1,5)
    by (auto simp: RAW_BUF_BYTES_def)
  ultimately show ?thesis using s(6) by simp
qed


lemma load_more_buffers_ok:
  assumes "load_more h c = Inr c'" "buffers_ok c" "INPUT_BUF_BYTES c \<le> 0"
  shows "buffers_ok c' \<and> compression c' = compression c"
proof (cases "compression c = PG_COMPRESSION_NONE")
  case True
  from load_more_none[OF True _ assms(3), of h] assms(1,2) True
  show ?thesis by (auto simp: buffers_ok_def)
next
  case False
  show ?thesis
  proof (cases "compression c = PG_COMPRESSION_GZIP")
    case True
    then have "read_gzip h c = Inr c'" "raw_buf_ok c"
      using assms(1,2) by (auto simp: load_more_def buffers_ok_def)
    from read_gzip_buffers_ok[OF this] show ?thesis by (simp add: buffers_ok_def)
  next
    case g: False
    then have "c' = c" using assms(1) False by (simp add: load_more_def)
    then show ?thesis using assms(2) by simp
  qed
qed

lemma load_more_resets_index:
  assumes "load_more h c = Inr c'" "buffers_ok c"
    "compression c = PG_COMPRESSION_NONE \<or> compression c = PG_COMPRESSION_GZIP"
  shows "input_buf_index c' = 0"
proof (cases "compression c = PG_COMPRESSION_NONE")
  case True
  then show ?thesis using assms(1) by (auto simp: load_more_def split: prod.splits)
next
  case False
  then have "read_gzip h c = Inr c'" "raw_buf_ok c"
    using assms by (auto simp: load_more_def buffers_ok_def)
  then show ?thesis
    using read_gzip_step(3)[of h c c'] prod_cases4 by metis
qed

lemma scan_buffers_ok:
  assumes "scan_for_newline c = Inr (c', f)" "buffers_ok c" "0 < INPUT_BUF_BYTES c"
  shows "buffers_ok c' \<and> compression c' = compression c \<and> input_buf c' = input_buf c
         \<and> input_buf_len c' = input_buf_len c \<and> source c' = source c
         \<and> raw_buf c' = raw_buf c \<and> raw_buf_len c' = raw_buf_len c
         \<and> raw_buf_index c' = raw_buf_index c \<and> strm c' = strm c"
proof -
  have ok: "input_buf_ok c" using assms(2) by (simp add: buffers_ok_def)
  have d: "drop (nat (input_buf_index c)) (input_buf c) = unread c @ [NUL]"
    by (rule drop_input_buf[OF ok assms(3)])
  show ?thesis
  proof (cases "strchr (unread c @ [NUL]) NL")
    case Out_of_bounds
    then show ?thesis using assms(1) by (simp add: scan_for_newline_def d)
  next
    case Null
    then have "c' = c\<lparr>line_buf := line_buf c @ unread c, input_buf_index := input_buf_len c\<rparr>"
      using assms(1) by (simp add: scan_for_newline_def d)
    then show ?thesis using assms(2)
      by (auto simp: buffers_ok_def input_buf_ok_def stream_buffer_ok_def raw_buf_ok_def)
  next
    case (Found k)
    then have c': "c' = c\<lparr>line_buf := line_buf c @ take k (unread c @ [NUL]),
                         input_buf_index := input_buf_index c + int k + 1\<rparr>"
      using assms(1) by (simp add: scan_for_newline_def d)
    have "k < length (unread c)"
      using Found strchr_Found_less by blast
    then have "int k < INPUT_BUF_BYTES c" using length_unread[OF ok] by simp
    then show ?thesis using assms(2) unfolding c'
      by (auto simp: buffers_ok_def input_buf_ok_def stream_buffer_ok_def raw_buf_ok_def
            INPUT_BUF_BYTES_def)
  qed
qed

lemma body_buffers_ok:
  assumes "JsonLineReadLine_body h c = Inr (c', f)" "buffers_ok c"
  shows "buffers_ok c' \<and> compression c' = compression c"
proof (cases "INPUT_BUF_BYTES c \<le> 0")
  case False
  then show ?thesis
    using assms scan_buffers_ok[of c c' f] by (simp add: JsonLineReadLine_body_def)
next
  case True
  then obtain c1 where l: "load_more h c = Inr c1"
    using assms(1) by (cases "load_more h c") (auto simp: JsonLineReadLine_body_def)
  from load_more_buffers_ok[OF l assms(2) True]
  have ok1: "buffers_ok c1" "compression c1 = compression c" by simp_all
  show ?thesis
  proof (cases "INPUT_BUF_BYTES c1 \<le> 0")
    case t: True
    then have "c' = c1" using assms(1) True l by (simp add: JsonLineReadLine_body_def)
    then show ?thesis using ok1 by simp
  next
    case False
    then have "scan_for_newline c1 = Inr (c', f)"
      using assms(1) True l by (simp add: JsonLineReadLine_body_def)
    from scan_buffers_ok[OF this ok1(1)] False ok1(2) show ?thesis by simp
  qed
qed

lemma body_no_refill:
  assumes "JsonLineReadLine_body h c = Inr (c', f)" "buffers_ok c" "0 < INPUT_BUF_BYTES c"
  shows "input_buf c' = input_buf c \<and> input_buf_len c' = input_buf_len c
         \<and> source c' = source c \<and> raw_buf c' = raw_buf c \<and> raw_buf_len c' = raw_buf_len c
         \<and> raw_buf_index c' = raw_buf_index c \<and> strm c' = strm c"
  using assms scan_buffers_ok[of c c' f] by (simp add: JsonLineReadLine_body_def)

lemma loop_buffers_ok_aux:
  assumes "JsonLineReadLine_loop h c = Some y"
  shows "buffers_ok c \<longrightarrow>
         (\<forall>c' r. y = Inr (c', r) \<longrightarrow> buffers_ok c' \<and> compression c' = compression c)"
proof (rule JsonLineReadLine_loop.raw_induct[
         where P = "\<lambda>h c y. buffers_ok c \<longrightarrow>
           (\<forall>c' r. y = Inr (c', r) \<longrightarrow> buffers_ok c' \<and> compression c' = compression c)",
         OF _ assms], goal_cases)
  case (1 loop h c y)
  note ih = 1(1) and step = 1(2)
  show ?case
  proof (intro impI allI)
    fix c' r
    assume ok: "buffers_ok c" and y: "y = Inr (c', r)"
    show "buffers_ok c' \<and> compression c' = compression c"
    proof (cases "JsonLineReadLine_body h c")
      case (Inl e)
      then have "y = Inl e" using step by simp
      then show ?thesis using y by simp
    next
      case (Inr p)
      obtain c1 f where p: "p = (c1, f)" by (cases p)
      have b: "JsonLineReadLine_body h c = Inr (c1, f)" using Inr p by simp
      note ok1 = body_buffers_ok[OF b ok]
      show ?thesis
      proof (cases f)
        case (Break res)
        then have "y = Inr (c1, res)" using step b by simp
        then have "c' = c1" using y by simp
        then show ?thesis using ok1 by simp
      next
        case Continue
        then have "loop h c1 = Some y" using step b by simp
        from ih[OF this] ok1 y show ?thesis by simp
      qed
    qed
  qed
qed

lemma loop_buffers_ok:
  assumes "JsonLineReadLine_loop h c = Some (Inr (c', r))" "buffers_ok c"
  shows "buffers_ok c' \<and> compression c' = compression c"
  using loop_buffers_ok_aux[OF assms(1)] assms(2) by simp

lemma ReadLine_buffers_ok:
  assumes "JsonLineReadLine h c = Some (Inr (c', r))" "buffers_ok c"
  shows "buffers_ok c' \<and> compression c' = compression c"
proof -
  have "buffers_ok (c\<lparr>line_buf := []\<rparr>)"
    using assms(2) by (simp add: buffers_ok_def input_buf_ok_def raw_buf_ok_def)
  from loop_buffers_ok[OF assms(1)[unfolded JsonLineReadLine_def] this]
  show ?thesis by simp
qed

lemma OneRow_buffers_ok:
  assumes "JsonLinesCopyFromOneRow h c vals nls = Some (Inr (c', row))" "buffers_ok c"
  shows "buffers_ok c' \<and> compression c' = compression c"
proof -
  from assms(1) obtain r where "JsonLineReadLine h c = Some (Inr (c', r))"
    by (auto simp: JsonLinesCopyFromOneRow_def
          split: option.splits sum.splits bool.splits prod.splits)
  from ReadLine_buffers_ok[OF this assms(2)] show ?thesis .
qed

text \<open>
  C8. The Stream Buffer invariant \<open>0 \<le> index \<le> len \<le> capacity\<close> of the Input Buffer
  and, under gzip, of the Raw Byte Buffer is established by the start operation and
  kept by every operation of the read path: one pass of the line reader's loop, the
  line reader, the one-row operation, the end operation and one step of the
  Decompression Adapter. A pass that starts with unread bytes in the Input Buffer does
  not refill it: buffer, length, source and both raw-buffer fields stay as they are. A
  refill of the Input Buffer sets its index to 0; the refill of the Raw Byte Buffer
  happens only when it has no unread bytes, and sets its index to 0. One step of the
  Decompression Adapter then advances the raw index by the number of bytes \<open>inflate\<close>
  consumed and sets the Input Buffer's length to the number of bytes it produced.
\<close>

theorem C8_stream_buffer_invariant:
  assumes "buffers_ok cstate"
  shows "(JsonLinesCopyFromStart h cstate0 = Inr c0 \<longrightarrow> buffers_ok c0)
       \<and> (JsonLineReadLine_body h cstate = Inr (c1, f) \<longrightarrow>
            buffers_ok c1
            \<and> (0 < INPUT_BUF_BYTES cstate \<longrightarrow>
                 input_buf c1 = input_buf cstate \<and> input_buf_len c1 = input_buf_len cstate
                 \<and> source c1 = source cstate \<and> raw_buf c1 = raw_buf cstate
                 \<and> raw_buf_len c1 = raw_buf_len cstate
                 \<and> raw_buf_index c1 = raw_buf_index cstate))
       \<and> (JsonLineReadLine h cstate = Some (Inr (c2, r)) \<longrightarrow> buffers_ok c2)
       \<and> (JsonLinesCopyFromOneRow h cstate vals nls = Some (Inr (c3, row)) \<longrightarrow> buffers_ok c3)
       \<and> buffers_ok (JsonLinesCopyFromEnd cstate)
       \<and> (load_more h cstate = Inr c4
            \<and> (compression cstate = PG_COMPRESSION_NONE
                \<or> compression cstate = PG_COMPRESSION_GZIP) \<longrightarrow> input_buf_index c4 = 0)
       \<and> (RAW_BUF_BYTES cstate \<noteq> 0 \<longrightarrow> read_gzip_refill cstate = cstate)
       \<and> (RAW_BUF_BYTES cstate = 0 \<longrightarrow> raw_buf_index (read_gzip_refill cstate) = 0)
       \<and> (compression cstate = PG_COMPRESSION_GZIP \<and> read_gzip h cstate = Inr c5
            \<and> inflate h (internal (strm cstate))
                 (take (nat (RAW_BUF_BYTES (read_gzip_refill cstate)))
                    (drop (nat (raw_buf_index (read_gzip_refill cstate)))
                       (raw_buf (read_gzip_refill cstate))))
                 INPUT_BUF_SIZE = (ret, used, out, z) \<longrightarrow>
            buffers_ok c5
            \<and> raw_buf_index c5 = raw_buf_index (read_gzip_refill cstate)
                 + int (min used (nat (RAW_BUF_BYTES (read_gzip_refill cstate))))
            \<and> input_buf_len c5 = int (length (take INPUT_BUF_SIZE out))
            \<and> input_buf_index c5 = 0)"
proof (intro conjI impI)
  assume "JsonLinesCopyFromStart h cstate0 = Inr c0"
  then show "buffers_ok c0" by (rule Start_buffers_ok)
next
  assume "JsonLineReadLine_body h cstate = Inr (c1, f)"
  from body_buffers_ok[OF this assms] show "buffers_ok c1" by simp
next
  assume b: "JsonLineReadLine_body h cstate = Inr (c1, f)" and p: "0 < INPUT_BUF_BYTES cstate"
  note n = body_no_refill[OF b assms p]
  from n show "input_buf c1 = input_buf cstate" by simp
  from n show "input_buf_len c1 = input_buf_len cstate" by simp
  from n show "source c1 = source cstate" by simp
  from n show "raw_buf c1 = raw_buf cstate" by simp
  from n show "raw_buf_len c1 = raw_buf_len cstate" by simp
  from n show "raw_buf_index c1 = raw_buf_index cstate" by simp
next
  assume "JsonLineReadLine h cstate = Some (Inr (c2, r))"
  from ReadLine_buffers_ok[OF this assms] show "buffers_ok c2" by simp
next
  assume "JsonLinesCopyFromOneRow h cstate vals nls = Some (Inr (c3, row))"
  from OneRow_buffers_ok[OF this assms] show "buffers_ok c3" by simp
next
  show "buffers_ok (JsonLinesCopyFromEnd cstate)"
    using assms by (simp add: JsonLinesCopyFromEnd_def end_inflate_gzip_def)
next
  assume "load_more h cstate = Inr c4
            \<and> (compression cstate = PG_COMPRESSION_NONE
                \<or> compression cstate = PG_COMPRESSION_GZIP)"
  then show "input_buf_index c4 = 0"
    using load_more_resets_index[of h cstate c4] assms by blast
next
  assume "RAW_BUF_BYTES cstate \<noteq> 0"
  then show "read_gzip_refill cstate = cstate" by (rule read_gzip_refill_only_when_empty)
next
  assume "RAW_BUF_BYTES cstate = 0"
  then show "raw_buf_index (read_gzip_refill cstate) = 0"
    by (rule read_gzip_refill_only_when_empty)
next
  assume a: "compression cstate = PG_COMPRESSION_GZIP \<and> read_gzip h cstate = Inr c5
            \<and> inflate h (internal (strm cstate))
                 (take (nat (RAW_BUF_BYTES (read_gzip_refill cstate)))
                    (drop (nat (raw_buf_index (read_gzip_refill cstate)))
                       (raw_buf (read_gzip_refill cstate))))
                 INPUT_BUF_SIZE = (ret, used, out, z)"
  then have g: "compression cstate = PG_COMPRESSION_GZIP" and r: "read_gzip h cstate = Inr c5"
    and i: "inflate h (internal (strm cstate))
                 (take (nat (RAW_BUF_BYTES (read_gzip_refill cstate)))
                    (drop (nat (raw_buf_index (read_gzip_refill cstate)))
                       (raw_buf (read_gzip_refill cstate))))
                 INPUT_BUF_SIZE = (ret, used, out, z)"
    by simp_all
  have ok: "raw_buf_ok cstate" using assms g by (simp add: buffers_ok_def)
  from read_gzip_buffers_ok[OF r ok] show "buffers_ok c5" by (simp add: buffers_ok_def)
  show "raw_buf_index c5 = raw_buf_index (read_gzip_refill cstate)
                 + int (min used (nat (RAW_BUF_BYTES (read_gzip_refill cstate))))"
    by (rule read_gzip_step(1)[OF r ok i])
  show "input_buf_len c5 = int (length (take INPUT_BUF_SIZE out))"
    by (rule read_gzip_step(2)[OF r ok i])
  show "input_buf_index c5 = 0"
    by (rule read_gzip_step(3)[OF r ok i])
qed

lemma example_read_gzip:
  "read_gzip example_host
     (example_cstate\<lparr>compression := PG_COMPRESSION_GZIP, source := [scenario_line1 @ [NL]]\<rparr>)
   = Inr (example_cstate\<lparr>compression := PG_COMPRESSION_GZIP, source := [],
            raw_buf := scenario_line1 @ [NL], raw_buf_len := 16, raw_buf_index := 16,
            bytes_processed := 16,
            strm := \<lparr>avail_in = 0, avail_out = INPUT_BUF_SIZE - 16, internal = ()\<rparr>,
            input_buf := scenario_line1 @ [NL, NUL], input_buf_len := 16,
            input_buf_index := 0\<rparr>)"
  by (simp add: read_gzip_def read_gzip_refill_def call_inflate_def Size_of_int_def
        RAW_BUF_BYTES_def example_cstate_def example_host_def scenario_line1_def
        RAW_BUF_SIZE_def INPUT_BUF_SIZE_def Let_def)

theorem C8_witness:
  "buffers_ok (example_cstate\<lparr>compression := PG_COMPRESSION_GZIP,
                 source := [scenario_line1 @ [NL]]\<rparr>)
   \<and> (\<exists>c5. read_gzip example_host
          (example_cstate\<lparr>compression := PG_COMPRESSION_GZIP,
             source := [scenario_line1 @ [NL]]\<rparr>) = Inr c5
        \<and> buffers_ok c5 \<and> raw_buf_index c5 = 16 \<and> input_buf_len c5 = 16
        \<and> input_buf_index c5 = 0)"
proof -
  let ?c = "example_cstate\<lparr>compression := PG_COMPRESSION_GZIP,
                 source := [scenario_line1 @ [NL]]\<rparr>"
  have ok: "buffers_ok ?c"
    by (simp add: buffers_ok_def input_buf_ok_def raw_buf_ok_def stream_buffer_ok_def
          example_cstate_def)
  have rf: "read_gzip_refill ?c = ?c\<lparr>source := [], raw_buf := scenario_line1 @ [NL],
              raw_buf_len := 16, raw_buf_index := 0, bytes_processed := 16\<rparr>"
    by (simp add: read_gzip_refill_def RAW_BUF_BYTES_def example_cstate_def
          scenario_line1_def RAW_BUF_SIZE_def)
  have i: "inflate example_host (internal (strm ?c))
             (take (nat (RAW_BUF_BYTES (read_gzip_refill ?c)))
                (drop (nat (raw_buf_index (read_gzip_refill ?c))) (raw_buf (read_gzip_refill ?c))))
             INPUT_BUF_SIZE = (0, 16, scenario_line1 @ [NL], ())"
    unfolding rf
    by (simp add: RAW_BUF_BYTES_def example_host_def scenario_line1_def INPUT_BUF_SIZE_def)
  have g: "compression ?c = PG_COMPRESSION_GZIP" by simp
  let ?c5 = "example_cstate\<lparr>compression := PG_COMPRESSION_GZIP, source := [],
            raw_buf := scenario_line1 @ [NL], raw_buf_len := 16, raw_buf_index := 16,
            bytes_processed := 16,
            strm := \<lparr>avail_in = 0, avail_out = INPUT_BUF_SIZE - 16, internal = ()\<rparr>,
            input_buf := scenario_line1 @ [NL, NUL], input_buf_len := 16,
            input_buf_index := 0\<rparr>"
  from C8_stream_buffer_invariant[OF ok, where h = example_host and ret = 0 and used = 16
         and out = "scenario_line1 @ [NL]" and z = "()" and ?c5.0 = ?c5]
  have "compression ?c = PG_COMPRESSION_GZIP \<and> read_gzip example_host ?c = Inr ?c5
        \<and> inflate example_host (internal (strm ?c))
             (take (nat (RAW_BUF_BYTES (read_gzip_refill ?c)))
                (drop (nat (raw_buf_index (read_gzip_refill ?c))) (raw_buf (read_gzip_refill ?c))))
             INPUT_BUF_SIZE = (0, 16, scenario_line1 @ [NL], ())
        \<longrightarrow> buffers_ok ?c5"
    by blast
  with g example_read_gzip i have "buffers_ok ?c5" by blast
  moreover have "raw_buf_index ?c5 = 16" "input_buf_len ?c5 = 16" "input_buf_index ?c5 = 0"
    by simp_all
  ultimately show ?thesis
    using ok example_read_gzip by blast
qed

section \<open>The end of the input\<close>

lemma consume_unread_ok:
  assumes "buffers_ok c"
  shows "buffers_ok (consume_unread c)" and "INPUT_BUF_BYTES (consume_unread c) \<le> 0"
  using assms
  by (auto simp: consume_unread_def buffers_ok_def input_buf_ok_def raw_buf_ok_def
        stream_buffer_ok_def INPUT_BUF_BYTES_def)

lemma body_consumes:
  assumes "buffers_ok c" "0 < INPUT_BUF_BYTES c" "NL \<notin> set (unread c)"
  shows "scan_for_newline c = Inr (consume_unread c, Continue)"
proof -
  have "input_buf_ok c" using assms(1) by (simp add: buffers_ok_def)
  from scan_null[OF this assms(2,3)] show ?thesis by (simp add: consume_unread_def)
qed

lemma loop_input_ends:
  assumes "buffers_ok c" "INPUT_BUF_BYTES c \<le> 0" "input_ends_after h c n"
  shows "\<exists>c'. JsonLineReadLine_loop h c = Some (Inr (c', True)) \<and> INPUT_BUF_BYTES c' \<le> 0"
  using assms
proof (induction n arbitrary: c)
  case 0
  then obtain c1 where l: "load_more h c = Inr c1" and e: "INPUT_BUF_BYTES c1 \<le> 0"
    by (auto split: sum.splits)
  have "JsonLineReadLine_body h c = Inr (c1, Break True)"
    using 0(2) l e by (simp add: JsonLineReadLine_body_def)
  from loop_Break[OF this] e show ?case by blast
next
  case (Suc n)
  then obtain c1 where l: "load_more h c = Inr c1" and p: "0 < INPUT_BUF_BYTES c1"
    and nl: "NL \<notin> set (unread c1)" and r: "input_ends_after h (consume_unread c1) n"
    by (auto split: sum.splits)
  from load_more_buffers_ok[OF l Suc.prems(1,2)] have ok1: "buffers_ok c1" by simp
  have "JsonLineReadLine_body h c = Inr (consume_unread c1, Continue)"
    using Suc.prems(2) l p body_consumes[OF ok1 p nl] by (simp add: JsonLineReadLine_body_def)
  from loop_Continue[OF this] Suc.IH[OF consume_unread_ok[OF ok1] r]
  show ?case by simp
qed

lemma ReadLine_input_ends:
  assumes "buffers_ok c" "NL \<notin> set (unread c)"
    "input_ends_after h (consume_unread (c\<lparr>line_buf := []\<rparr>)) n"
  shows "\<exists>c'. JsonLineReadLine h c = Some (Inr (c', True)) \<and> INPUT_BUF_BYTES c' \<le> 0"
proof -
  let ?c = "c\<lparr>line_buf := []\<rparr>"
  have ok: "buffers_ok ?c"
    using assms(1) by (simp add: buffers_ok_def input_buf_ok_def raw_buf_ok_def)
  have nl: "NL \<notin> set (unread ?c)" using assms(2) by (simp add: unread_def)
  from loop_input_ends[OF consume_unread_ok[OF ok] assms(3)] obtain c' where
    c': "JsonLineReadLine_loop h (consume_unread ?c) = Some (Inr (c', True))"
        "INPUT_BUF_BYTES c' \<le> 0" by blast
  show ?thesis
  proof (cases "0 < INPUT_BUF_BYTES ?c")
    case True
    have "JsonLineReadLine_body h ?c = Inr (consume_unread ?c, Continue)"
      using True body_consumes[OF ok True nl] by (simp add: JsonLineReadLine_body_def)
    from loop_Continue[OF this] c' show ?thesis by (simp add: JsonLineReadLine_def)
  next
    case False
    then have "input_buf_index c = input_buf_len c"
      using assms(1)
      by (auto simp: buffers_ok_def input_buf_ok_def stream_buffer_ok_def INPUT_BUF_BYTES_def)
    then have "consume_unread ?c = ?c"
      by (simp add: consume_unread_def unread_def)
    with c' show ?thesis by (simp add: JsonLineReadLine_def)
  qed
qed

text \<open>
  C4. No row for a dangling tail, under either compression mode. The unread bytes of
  the Input Buffer hold no newline, and the input ends before one comes: either the
  next refills bring bytes without a newline and then a refill brings no byte (whether
  the refill reads the source directly or goes through \<open>read_gzip\<close>), or, for an
  uncompressed read, the unread bytes together with the rest of the source hold no
  newline, however the source is split into chunks. Then the line reader reports the
  end of the input and the one-row operation returns \<open>false\<close>: no row, and the line is
  never parsed. For the uncompressed stream the tail has been moved into the Line Buffer
  and nothing is left to read; the next call clears the Line Buffer.
\<close>

theorem C4_no_row_for_dangling_tail:
  assumes "buffers_ok cstate" "NL \<notin> set (unread cstate)"
    and "input_ends_after h (consume_unread (cstate\<lparr>line_buf := []\<rparr>)) n
         \<or> (compression cstate = PG_COMPRESSION_NONE \<and> NL \<notin> set (remaining cstate))"
  shows "\<exists>cstate'. JsonLineReadLine h cstate = Some (Inr (cstate', True))
           \<and> JsonLinesCopyFromOneRow h cstate vals nls = Some (Inr (cstate', None))
           \<and> INPUT_BUF_BYTES cstate' \<le> 0
           \<and> (compression cstate = PG_COMPRESSION_NONE \<and> NL \<notin> set (remaining cstate) \<longrightarrow>
                line_buf cstate' = remaining cstate \<and> remaining cstate' = [])"
proof (cases "compression cstate = PG_COMPRESSION_NONE \<and> NL \<notin> set (remaining cstate)")
  case True
  have ok: "input_buf_ok cstate" using assms(1) by (simp add: buffers_ok_def)
  from JsonLineReadLine_eof[OF ok, of h] True obtain c' where c':
    "JsonLineReadLine h cstate = Some (Inr (c', True))" "line_buf c' = remaining cstate"
    "remaining c' = []" "input_buf_ok c'" by blast
  have "unread c' = []" using c'(3) by (simp add: remaining_def)
  then have "INPUT_BUF_BYTES c' \<le> 0" using length_unread[OF c'(4)] by simp
  then show ?thesis using c'(1,2,3) OneRow_eof[OF c'(1), of vals nls] by blast
next
  case False
  then have "input_ends_after h (consume_unread (cstate\<lparr>line_buf := []\<rparr>)) n"
    using assms(3) by blast
  from ReadLine_input_ends[OF assms(1,2) this] obtain c' where
    "JsonLineReadLine h cstate = Some (Inr (c', True))" "INPUT_BUF_BYTES c' \<le> 0" by blast
  then show ?thesis using False OneRow_eof[of h cstate c' vals nls] by blast
qed

theorem C4_witness:
  "buffers_ok (example_cstate\<lparr>compression := PG_COMPRESSION_GZIP,
                 source := [''{\"a\":1,'', ''\"b\":'']\<rparr>)
   \<and> input_ends_after example_host
        (consume_unread (example_cstate\<lparr>compression := PG_COMPRESSION_GZIP,
                           source := [''{\"a\":1,'', ''\"b\":''], line_buf := []\<rparr>))
        (Suc (Suc 0))
   \<and> (\<exists>cstate'. JsonLinesCopyFromOneRow example_host
          (example_cstate\<lparr>compression := PG_COMPRESSION_GZIP,
             source := [''{\"a\":1,'', ''\"b\":'']\<rparr>) [] [] = Some (Inr (cstate', None)))
   \<and> NL \<notin> set (remaining (example_cstate\<lparr>source := [''{\"a\":1,'', ''\"b\":'']\<rparr>))
   \<and> (\<exists>cstate'. JsonLinesCopyFromOneRow example_host
          (example_cstate\<lparr>source := [''{\"a\":1,'', ''\"b\":'']\<rparr>) [] [] = Some (Inr (cstate', None))
        \<and> line_buf cstate' = ''{\"a\":1,\"b\":'')"
proof -
  let ?g = "example_cstate\<lparr>compression := PG_COMPRESSION_GZIP,
              source := [''{\"a\":1,'', ''\"b\":'']\<rparr>"
  let ?c = "example_cstate\<lparr>source := [''{\"a\":1,'', ''\"b\":'']\<rparr>"
  have g1: "buffers_ok ?g"
    by (simp add: buffers_ok_def input_buf_ok_def raw_buf_ok_def stream_buffer_ok_def
          example_cstate_def)
  have g2: "NL \<notin> set (unread ?g)" by (simp add: unread_def example_cstate_def)
  have g3: "input_ends_after example_host (consume_unread (?g\<lparr>line_buf := []\<rparr>)) (Suc (Suc 0))"
    by (simp add: consume_unread_def unread_def load_more_def read_gzip_def
          read_gzip_refill_def call_inflate_def Size_of_int_def RAW_BUF_BYTES_def
          INPUT_BUF_BYTES_def example_cstate_def example_host_def NL_def
          RAW_BUF_SIZE_def INPUT_BUF_SIZE_def Let_def)
  have c1: "buffers_ok ?c"
    by (simp add: buffers_ok_def input_buf_ok_def stream_buffer_ok_def example_cstate_def)
  have c2: "NL \<notin> set (unread ?c)" by (simp add: unread_def example_cstate_def)
  have c3: "compression ?c = PG_COMPRESSION_NONE \<and> NL \<notin> set (remaining ?c)"
    by (simp add: remaining_def unread_def example_cstate_def NL_def)
  have c4: "remaining ?c = ''{\"a\":1,\"b\":''"
    by (simp add: remaining_def unread_def example_cstate_def)
  from C4_no_row_for_dangling_tail[OF g1 g2, of example_host "Suc (Suc 0)" "[]" "[]"] g3
  have G: "\<exists>cstate'. JsonLinesCopyFromOneRow example_host ?g [] [] = Some (Inr (cstate', None))"
    by blast
  from C4_no_row_for_dangling_tail[OF c1 c2, of example_host 0 "[]" "[]"] c3 c4
  have C: "\<exists>cstate'. JsonLinesCopyFromOneRow example_host ?c [] [] = Some (Inr (cstate', None))
        \<and> line_buf cstate' = ''{\"a\":1,\"b\":''"
    by auto
  from g1 g3 G c3 C show ?thesis
    by simp
qed

section \<open>Properties of the write path\<close>









lemma cstring_same: "NUL \<notin> set s \<Longrightarrow> cstring s = s"
  by (auto simp: cstring_def)













section \<open>The round trip\<close>

lemma scan_frame:
  "scan_for_newline c1 = Inr (c2, f) \<Longrightarrow>
   tupdesc c2 = tupdesc c1 \<and> attnumlist c2 = attnumlist c1 \<and> in_functions c2 = in_functions c1"
  by (auto simp: scan_for_newline_def split: scan.splits)

lemma load_more_frame:
  "load_more h c1 = Inr c2 \<Longrightarrow>
   tupdesc c2 = tupdesc c1 \<and> attnumlist c2 = attnumlist c1 \<and> in_functions c2 = in_functions c1"
  by (auto simp: load_more_def read_gzip_def read_gzip_refill_def Let_def
        split: if_splits prod.splits)

lemma body_frame:
  assumes "JsonLineReadLine_body h c = Inr (c', f)"
  shows "tupdesc c' = tupdesc c \<and> attnumlist c' = attnumlist c \<and> in_functions c' = in_functions c"
proof -
  note s = scan_frame and l = load_more_frame
  show ?thesis
  proof (cases "INPUT_BUF_BYTES c \<le> 0")
    case False
    then show ?thesis using assms s[of c c' f] by (simp add: JsonLineReadLine_body_def)
  next
    case True
    then obtain c1 where c1: "load_more h c = Inr c1"
      using assms by (cases "load_more h c") (auto simp: JsonLineReadLine_body_def)
    show ?thesis
    proof (cases "INPUT_BUF_BYTES c1 \<le> 0")
      case t: True
      then have "c' = c1" using assms True c1 by (simp add: JsonLineReadLine_body_def)
      then show ?thesis using l[OF c1] by simp
    next
      case False
      then have "scan_for_newline c1 = Inr (c', f)"
        using assms True c1 by (simp add: JsonLineReadLine_body_def)
      from s[OF this] l[OF c1] show ?thesis by simp
    qed
  qed
qed

lemma loop_frame_aux:
  assumes "JsonLineReadLine_loop h c = Some y"
  shows "\<forall>c' r. y = Inr (c', r) \<longrightarrow>
           tupdesc c' = tupdesc c \<and> attnumlist c' = attnumlist c \<and> in_functions c' = in_functions c"
proof (rule JsonLineReadLine_loop.raw_induct[
         where P = "\<lambda>h c y. \<forall>c' r. y = Inr (c', r) \<longrightarrow>
           tupdesc c' = tupdesc c \<and> attnumlist c' = attnumlist c \<and> in_functions c' = in_functions c",
         OF _ assms], goal_cases)
  case (1 loop h c y)
  note ih = 1(1) and step = 1(2)
  show ?case
  proof (intro impI allI)
    fix c' r
    assume y: "y = Inr (c', r)"
    show "tupdesc c' = tupdesc c \<and> attnumlist c' = attnumlist c \<and> in_functions c' = in_functions c"
    proof (cases "JsonLineReadLine_body h c")
      case (Inl e)
      then have "y = Inl e" using step by simp
      then show ?thesis using y by simp
    next
      case (Inr p)
      obtain c1 f where p: "p = (c1, f)" by (cases p)
      have b: "JsonLineReadLine_body h c = Inr (c1, f)" using Inr p by simp
      note f1 = body_frame[OF b]
      show ?thesis
      proof (cases f)
        case (Break res)
        then have "y = Inr (c1, res)" using step b by simp
        then have "c' = c1" using y by simp
        then show ?thesis using f1 by simp
      next
        case Continue
        then have "loop h c1 = Some y" using step b by simp
        from ih[OF this] f1 y show ?thesis by simp
      qed
    qed
  qed
qed

lemma ReadLine_frame:
  assumes "JsonLineReadLine h c = Some (Inr (c', r))"
  shows "tupdesc c' = tupdesc c \<and> attnumlist c' = attnumlist c \<and> in_functions c' = in_functions c"
  using loop_frame_aux[OF assms[unfolded JsonLineReadLine_def]] by simp

lemma CopyTo_rows_none:
  assumes "options_compression c = PG_COMPRESSION_NONE" "fe_msgbuf c = []"
  shows "\<exists>c'. CopyTo_rows h c slots = Some (Inr c')
            \<and> copy_dest c' = copy_dest c @ concat (map (\<lambda>r. cstring (row_to_json h r) @ [NL]) slots)
            \<and> fe_msgbuf c' = []"
  using assms
proof (induction slots arbitrary: c)
  case Nil
  then show ?case by simp
next
  case (Cons r slots)
  let ?c1 = "CopyToFlushData (c\<lparr>fe_msgbuf := fe_msgbuf c @ cstring (row_to_json h r) @ [NL]\<rparr>)"
  have 1: "JsonLinesCopyToOneRow h c r = Some (Inr ?c1)"
    using Cons.prems(1) by (simp add: JsonLinesCopyToOneRow_def Let_def)
  have p: "options_compression ?c1 = PG_COMPRESSION_NONE" "fe_msgbuf ?c1 = []"
    "copy_dest ?c1 = copy_dest c @ cstring (row_to_json h r) @ [NL]"
    using Cons.prems by (simp_all add: CopyToFlushData_def)
  from Cons.IH[OF p(1,2)] obtain c' where
    "CopyTo_rows h ?c1 slots = Some (Inr c')"
    "copy_dest c' = copy_dest ?c1 @ concat (map (\<lambda>r. cstring (row_to_json h r) @ [NL]) slots)"
    "fe_msgbuf c' = []" by blast
  then show ?case using 1 p(3) by simp
qed

text \<open>
  The text that the repository's \<open>GetJsonbValueAsCString\<close> makes of a value's jsonb
  value is, as a C string, the value's text form.
\<close>

lemma cstring_cstring: "cstring (cstring s) = cstring s"
  by (simp add: cstring_def takeWhile_idem)

lemma render_text_form:
  "\<exists>str. GetJsonbValueAsCString h (json_of v) [] = Inr str
         \<and> cstring str = cstring (text_form h v)"
  by (cases v) (simp_all add: GetJsonbValueAsCString_def cstring_cstring)

lemma json_of_not_null: "json_of v \<noteq> jbvNull"
  by (cases v) simp_all

lemma foreach_total:
  assumes "\<forall>a\<in>set lc. 1 \<le> a \<and> a \<le> int n \<and> server_cell h c pairs a (row ! nat (a - 1))"
    and "n \<le> length (tupdesc c)" "n \<le> length (in_functions c)" "length vals = n" "length nls = n"
  shows "\<exists>v' n'. JsonLinesCopyFromOneRow_foreach h c (JsonbObject pairs) lc vals nls [] = Inr (v', n')"
  using assms
proof (induction lc arbitrary: vals nls)
  case Nil
  then show ?case by simp
next
  case (Cons a lc)
  let ?i = "nat (a - 1)"
  let ?k = "cstring (tupdesc c ! ?i)"
  have b: "1 \<le> a" "a \<le> int n" and rt: "server_cell h c pairs a (row ! ?i)"
    using Cons.prems(1) by auto
  have nb: "\<not> (a < 1 \<or> int (length (tupdesc c)) < a \<or> int (length (in_functions c)) < a
              \<or> int (length vals) < a \<or> int (length nls) < a)"
    using b Cons.prems(2-5) by auto
  have rest: "\<forall>a\<in>set lc. 1 \<le> a \<and> a \<le> int n \<and> server_cell h c pairs a (row ! nat (a - 1))"
    using Cons.prems(1) by simp
  have ih: "\<exists>v' n'. JsonLinesCopyFromOneRow_foreach h c (JsonbObject pairs) lc vals1 nls1 [] = Inr (v', n')"
    if "length vals1 = n" "length nls1 = n" for vals1 nls1
    using Cons.IH[OF rest Cons.prems(2,3) that] .
  show ?case
  proof (cases "row ! ?i")
    case None
    then have "map_of pairs ?k = Some jbvNull"
      using rt by (simp add: server_cell_def Let_def)
    then show ?thesis
      using nb ih[of vals "nls[?i := True]"] Cons.prems(4,5)
      by (simp add: Let_def getKeyJsonValueFromContainer_def)
  next
    case (Some v)
    then have m: "map_of pairs ?k = Some (json_of v)"
      and d: "(in_functions c ! ?i) (cstring (text_form h v)) = Some v"
      using rt by (simp_all add: server_cell_def Let_def)
    from render_text_form[of h v] obtain str where
      g: "GetJsonbValueAsCString h (json_of v) [] = Inr str"
      and s: "cstring str = cstring (text_form h v)" by blast
    have d': "(in_functions c ! ?i) (cstring str) = Some v" using d s by simp
    show ?thesis
      using nb m json_of_not_null[of v] g d' ih[of "vals[?i := v]" "nls[?i := False]"]
        Cons.prems(4,5)
      by (simp add: Let_def getKeyJsonValueFromContainer_def)
  qed
qed

lemma cell_agree:
  assumes "cell_decoded h c pairs a v' n'" "server_cell h c pairs a cell"
  shows "(if n' ! nat (a - 1) then None else Some (v' ! nat (a - 1))) = cell"
proof (cases cell)
  case None
  then show ?thesis using assms by (simp add: cell_decoded_def server_cell_def Let_def)
next
  case (Some v)
  from render_text_form[of h v] obtain str where
    g: "GetJsonbValueAsCString h (json_of v) [] = Inr str"
    and s: "cstring str = cstring (text_form h v)" by blast
  show ?thesis
    using assms Some g s json_of_not_null[of v]
    by (simp add: cell_decoded_def server_cell_def Let_def)
qed

lemma decoded_row_nth:
  "i < length vs \<Longrightarrow> i < length ns \<Longrightarrow>
   decoded_row vs ns ! i = (if ns ! i then None else Some (vs ! i))"
  by (simp add: decoded_row_def)

lemma server_round_trips_cong:
  "tupdesc c' = tupdesc c \<Longrightarrow> attnumlist c' = attnumlist c \<Longrightarrow> in_functions c' = in_functions c \<Longrightarrow>
   server_round_trips h c' json row = server_round_trips h c json row"
  by (simp add: server_round_trips_def server_cell_def
        cong: option.case_cong sum.case_cong if_cong JsonbContainer.case_cong)

lemma OneRow_round_trip:
  assumes ok: "input_buf_ok c" and none: "compression c = PG_COMPRESSION_NONE"
    and rem: "remaining c = json @ NL # rest"
    and rt: "server_round_trips h c json row"
    and cols: "attnumlist c = map int [1..<Suc n]"
    and len: "length (tupdesc c) = n" "length (in_functions c) = n" "length vals = n" "length nls = n"
  shows "\<exists>c' v' n'. JsonLinesCopyFromOneRow h c vals nls = Some (Inr (c', Some (v', n', length json)))
           \<and> decoded_row v' n' = row \<and> remaining c' = rest \<and> input_buf_ok c'
           \<and> compression c' = PG_COMPRESSION_NONE
           \<and> tupdesc c' = tupdesc c \<and> attnumlist c' = attnumlist c \<and> in_functions c' = in_functions c
           \<and> length v' = n \<and> length n' = n"
proof -
  have j: "NL \<notin> set json" "NUL \<notin> set json" and lr: "length row = n"
    using rt cols by (simp_all add: server_round_trips_def)
  from JsonLineReadLine_line[OF ok none rem j, of h] obtain c' where r:
    "JsonLineReadLine h c = Some (Inr (c', False))" "line_buf c' = json" "remaining c' = rest"
    "input_buf_ok c'" "compression c' = PG_COMPRESSION_NONE" by blast
  note fr = ReadLine_frame[OF r(1)]
  from rt obtain pairs where p: "jsonb_in h json = Some (JsonbObject pairs)"
    and cells: "\<forall>a\<in>set (attnumlist c). server_cell h c pairs a (row ! nat (a - 1))"
    by (auto simp: server_round_trips_def list_all_iff
          split: option.splits JsonbContainer.splits)
  have crt: "server_cell h c' pairs a cell = server_cell h c pairs a cell" for a cell
    using fr by (simp add: server_cell_def
          cong: option.case_cong sum.case_cong if_cong)
  have pre: "\<forall>a\<in>set (attnumlist c'). 1 \<le> a \<and> a \<le> int n
               \<and> server_cell h c' pairs a (row ! nat (a - 1))"
    using cells fr cols crt by auto
  from foreach_total[OF pre, of vals nls] fr len obtain v' n' where
    f: "JsonLinesCopyFromOneRow_foreach h c' (JsonbObject pairs) (attnumlist c') vals nls []
          = Inr (v', n')"
    by auto
  have one: "JsonLinesCopyFromOneRow h c vals nls = Some (Inr (c', Some (v', n', length json)))"
    using OneRow_parsed[OF r(1), of "JsonbObject pairs" vals nls] p f r(2) cstring_same[OF j(2)]
    by simp
  from foreach_length[OF f] len have l': "length v' = n" "length n' = n" by simp_all
  have "decoded_row v' n' = row"
  proof (rule nth_equalityI)
    show "length (decoded_row v' n') = length row"
      using l' lr by (simp add: decoded_row_def)
  next
    fix i assume "i < length (decoded_row v' n')"
    then have i: "i < n" using l' by (simp add: decoded_row_def)
    let ?a = "int (Suc i)"
    have "Suc i \<in> set [1..<Suc n]" using i by auto
    then have "?a \<in> set (map int [1..<Suc n])" by (metis imageI set_map)
    moreover have "attnumlist c' = map int [1..<Suc n]" using fr cols by (simp only:)
    ultimately have a: "?a \<in> set (attnumlist c')" by (simp only:)
    have ni: "nat (?a - 1) = i" by simp
    from foreach_cells[OF f a] have "cell_decoded h c' pairs ?a v' n'" .
    moreover from pre a have "server_cell h c' pairs ?a (row ! nat (?a - 1))" by blast
    ultimately have "(if n' ! nat (?a - 1) then None else Some (v' ! nat (?a - 1)))
                     = row ! nat (?a - 1)"
      by (rule cell_agree)
    then show "decoded_row v' n' ! i = row ! i"
      unfolding ni using decoded_row_nth[of i v' n'] i l' by simp
  qed
  then show ?thesis using one r(3,4,5) fr l' by blast
qed

lemma CopyFrom_loop_rows:
  assumes "input_buf_ok c" "compression c = PG_COMPRESSION_NONE"
    and "remaining c = concat (map (\<lambda>r. enc r @ [NL]) rows)"
    and "\<forall>r\<in>set rows. server_round_trips h c (enc r) r"
    and "attnumlist c = map int [1..<Suc n]"
    and "length (tupdesc c) = n" "length (in_functions c) = n" "length vals = n" "length nls = n"
  shows "CopyFrom_loop h c vals nls acc = Some (Inr (rev acc @ rows))"
  using assms
proof (induction rows arbitrary: c vals nls acc)
  case Nil
  then have "NL \<notin> set (remaining c)" by simp
  from JsonLineReadLine_eof[OF Nil.prems(1,2) this, of h] obtain c' where
    "JsonLineReadLine h c = Some (Inr (c', True))" by blast
  from OneRow_eof[OF this, of vals nls] show ?case
    by (subst CopyFrom_loop.simps) simp
next
  case (Cons r rows)
  have rem: "remaining c = enc r @ NL # concat (map (\<lambda>r. enc r @ [NL]) rows)"
    using Cons.prems(3) by simp
  have rt: "server_round_trips h c (enc r) r" using Cons.prems(4) by simp
  from OneRow_round_trip[OF Cons.prems(1,2) rem rt Cons.prems(5-9)]
  obtain c' v' n' where o:
    "JsonLinesCopyFromOneRow h c vals nls = Some (Inr (c', Some (v', n', length (enc r))))"
    "decoded_row v' n' = r" "remaining c' = concat (map (\<lambda>r. enc r @ [NL]) rows)"
    "input_buf_ok c'" "compression c' = PG_COMPRESSION_NONE"
    "tupdesc c' = tupdesc c" "attnumlist c' = attnumlist c" "in_functions c' = in_functions c"
    "length v' = n" "length n' = n" by blast
  have rts: "\<forall>r\<in>set rows. server_round_trips h c' (enc r) r"
    using Cons.prems(4) server_round_trips_cong[OF o(6,7,8), of h] by simp
  have "CopyFrom_loop h c' v' n' (r # acc) = Some (Inr (rev (r # acc) @ rows))"
    using Cons.IH[OF o(4,5,3) rts _ _ _ o(9,10), of "r # acc"] o(6,7,8) Cons.prems(5,6,7)
    by simp
  then show ?case
    using o(1,2) by (subst CopyFrom_loop.simps) simp
qed

text \<open>
  C1. Round trip, uncompressed. Rows of texts, numbers, booleans and nulls are encoded,
  one after the other, by the write path's one-row operation on a fresh stream: this
  comes to an end without error. The bytes that reached the destination are then the
  bytes a read has before it, split into chunks in any way, with all columns as target
  columns. What is asked of the server, and of nothing else, is that its own functions
  fit together: the JSON text that \<open>row_to_json\<close> makes of a row has no newline and no
  NUL byte, \<open>jsonb_in\<close> makes of it the object with the jsonb value of each cell under
  the column's name, and the input function of a column makes a value again from its
  text form. Then reading row after row until the one-row operation returns \<open>false\<close>
  gives back exactly the rows: the same values and nulls, in the same column order and
  the same row order.
\<close>

theorem C1_round_trip_uncompressed:
  assumes "options_compression cw = PG_COMPRESSION_NONE" "fe_msgbuf cw = []" "copy_dest cw = []"
    and "input_buf_ok cr" "compression cr = PG_COMPRESSION_NONE"
    and "attnumlist cr = map int [1..<Suc ncols]"
    and "length (tupdesc cr) = ncols" "length (in_functions cr) = ncols"
    and "length vals = ncols" "length nls = ncols"
    and "\<forall>row\<in>set rows. server_round_trips hr cr (row_to_json hw row) row"
  shows "\<exists>cw'. CopyTo_rows hw cw rows = Some (Inr cw')
           \<and> (remaining cr = copy_dest cw' \<longrightarrow>
                CopyFrom_loop hr cr vals nls [] = Some (Inr rows))"
proof -
  from CopyTo_rows_none[OF assms(1,2), of hw rows] assms(3) obtain cw' where w:
    "CopyTo_rows hw cw rows = Some (Inr cw')"
    "copy_dest cw' = concat (map (\<lambda>r. cstring (row_to_json hw r) @ [NL]) rows)"
    by auto
  have cs: "cstring (row_to_json hw r) = row_to_json hw r" if "r \<in> set rows" for r
    using assms(11) that by (intro cstring_same) (simp add: server_round_trips_def)
  have "CopyFrom_loop hr cr vals nls [] = Some (Inr rows)" if "remaining cr = copy_dest cw'"
  proof -
    have "remaining cr = concat (map (\<lambda>r. row_to_json hw r @ [NL]) rows)"
      using that w(2) cs by (simp cong: map_cong)
    from CopyFrom_loop_rows[OF assms(4,5) this assms(11) assms(6-10), of "[]"]
    show ?thesis by simp
  qed
  with w(1) show ?thesis by blast
qed

theorem C1_witness:
  "server_round_trips roundtrip_host roundtrip_cstate roundtrip_line1 roundtrip_row1
   \<and> server_round_trips roundtrip_host roundtrip_cstate roundtrip_line2 roundtrip_row2
   \<and> CopyTo_rows roundtrip_to_host roundtrip_to_cstate [roundtrip_row1, roundtrip_row2]
       = Some (Inr (roundtrip_to_cstate\<lparr>copy_dest :=
                      roundtrip_line1 @ [NL] @ roundtrip_line2 @ [NL]\<rparr>))
   \<and> remaining (roundtrip_cstate\<lparr>source :=
         [''{\"a\":1,\"b\":\"he'', ''llo\",\"c\":true}'' @ [NL] @ ''{\"a\"'',
          '':2,\"b\":null,\"c\":false}'' @ [NL]]\<rparr>)
       = roundtrip_line1 @ [NL] @ roundtrip_line2 @ [NL]
   \<and> CopyFrom_loop roundtrip_host
        (roundtrip_cstate\<lparr>source :=
           [''{\"a\":1,\"b\":\"he'', ''llo\",\"c\":true}'' @ [NL] @ ''{\"a\"'',
            '':2,\"b\":null,\"c\":false}'' @ [NL]]\<rparr>)
        [BoolValue False, NumericValue 7, TextValue ''old''] [False, False, True] []
       = Some (Inr [[Some (NumericValue 1), Some (TextValue ''hello''), Some (BoolValue True)],
                    [Some (NumericValue 2), None, Some (BoolValue False)]])"
proof -
  let ?cw = "roundtrip_to_cstate"
  let ?cw' = "roundtrip_to_cstate\<lparr>copy_dest := roundtrip_line1 @ [NL] @ roundtrip_line2 @ [NL]\<rparr>"
  let ?cr = "roundtrip_cstate\<lparr>source :=
         [''{\"a\":1,\"b\":\"he'', ''llo\",\"c\":true}'' @ [NL] @ ''{\"a\"'',
          '':2,\"b\":null,\"c\":false}'' @ [NL]]\<rparr>"
  have ne: "roundtrip_row2 \<noteq> roundtrip_row1"
    by (simp add: roundtrip_row1_def roundtrip_row2_def)
  have j: "row_to_json roundtrip_to_host roundtrip_row1 = roundtrip_line1"
    "row_to_json roundtrip_to_host roundtrip_row2 = roundtrip_line2"
    using ne by (simp_all add: roundtrip_to_host_def)
  have cs: "cstring roundtrip_line1 = roundtrip_line1" "cstring roundtrip_line2 = roundtrip_line2"
    by (simp_all add: cstring_def roundtrip_line1_def roundtrip_line2_def NUL_def)
  have w: "CopyTo_rows roundtrip_to_host ?cw [roundtrip_row1, roundtrip_row2] = Some (Inr ?cw')"
    by (simp add: JsonLinesCopyToOneRow_def Let_def j cs CopyToFlushData_def roundtrip_to_cstate_def)
  have a1: "options_compression ?cw = PG_COMPRESSION_NONE" "fe_msgbuf ?cw = []" "copy_dest ?cw = []"
    by (simp_all add: roundtrip_to_cstate_def)
  have ok: "input_buf_ok ?cr"
    by (simp add: input_buf_ok_def stream_buffer_ok_def roundtrip_cstate_def)
  have none: "compression ?cr = PG_COMPRESSION_NONE" by (simp add: roundtrip_cstate_def)
  have rem: "remaining ?cr = roundtrip_line1 @ [NL] @ roundtrip_line2 @ [NL]"
    by (simp add: remaining_def unread_def roundtrip_cstate_def roundtrip_line1_def
          roundtrip_line2_def)
  have rem': "remaining ?cr = copy_dest ?cw'" using rem by simp
  have u: "[1..<Suc 3] = [1, 2, 3]" by (simp add: upt_rec)
  have cols: "attnumlist ?cr = map int [1..<Suc 3]"
    unfolding u by (simp add: roundtrip_cstate_def)
  have len: "length (tupdesc ?cr) = 3" "length (in_functions ?cr) = 3"
    "length [BoolValue False, NumericValue 7, TextValue ''old''] = 3"
    "length [False, False, True] = 3"
    by (simp_all add: roundtrip_cstate_def)
  have r1: "server_round_trips roundtrip_host roundtrip_cstate roundtrip_line1 roundtrip_row1"
    by (simp add: server_round_trips_def server_cell_def roundtrip_host_def roundtrip_cstate_def
          roundtrip_line1_def roundtrip_row1_def NL_def NUL_def cstring_def
          roundtrip_numeric_in_def roundtrip_textin_def roundtrip_boolin_def)
  have r2: "server_round_trips roundtrip_host roundtrip_cstate roundtrip_line2 roundtrip_row2"
    by (simp add: server_round_trips_def server_cell_def roundtrip_host_def roundtrip_cstate_def
          roundtrip_line1_def roundtrip_line2_def roundtrip_row2_def NL_def NUL_def cstring_def
          roundtrip_numeric_in_def roundtrip_textin_def roundtrip_boolin_def)
  have c: "server_round_trips roundtrip_host ?cr json row
           = server_round_trips roundtrip_host roundtrip_cstate json row" for json row
    by (rule server_round_trips_cong) simp_all
  have rts: "\<forall>row\<in>set [roundtrip_row1, roundtrip_row2].
               server_round_trips roundtrip_host ?cr (row_to_json roundtrip_to_host row) row"
  proof (intro ballI)
    fix row assume "row \<in> set [roundtrip_row1, roundtrip_row2]"
    then have "row = roundtrip_row1 \<or> row = roundtrip_row2" by simp
    then show "server_round_trips roundtrip_host ?cr (row_to_json roundtrip_to_host row) row"
    proof
      assume "row = roundtrip_row1"
      then show ?thesis using r1 by (simp only: j c)
    next
      assume "row = roundtrip_row2"
      then show ?thesis using r2 by (simp only: j c)
    qed
  qed
  from C1_round_trip_uncompressed[OF a1 ok none cols len rts]
  have "CopyFrom_loop roundtrip_host ?cr
          [BoolValue False, NumericValue 7, TextValue ''old''] [False, False, True] []
        = Some (Inr [roundtrip_row1, roundtrip_row2])"
    using w rem' by simp
  then show ?thesis using w rem r1 r2
    by (simp add: roundtrip_row1_def roundtrip_row2_def)
qed

end
